theory Spec2Isabelle
  imports Complex_Main "HOL-Library.AList"
begin

section \<open>JavaScript values\<close>

text \<open>
  The utilities of the site keep every piece of state in the browser's \<open>localStorage\<close>, as
  JSON text. A stored value is a JSON value: \<open>null\<close>, a boolean, a number, a string, an
  array or an object. An object lists its properties in the engine's enumeration order.
  A number is an integer (\<open>JNum\<close>; the code stores millisecond timestamps) or a decimal
  fraction (\<open>JDec m d\<close> is \<open>m / 10 ^ d\<close>, with \<open>d > 0\<close> and \<open>m\<close> no multiple of 10): the
  decimal that \<open>Number::toString\<close> prints for it. A numeral denotes its exact decimal
  value: the rounding of a numeral of more than 15 significant digits to the nearest
  binary64 number, and the overflow of binary64, are not modelled, and \<open>-0\<close> is \<open>0\<close>.
  Characters are the 256 values of \<open>char\<close>, the code units below U+0100. A property read
  that yields \<open>undefined\<close> is \<open>None\<close>.
\<close>

datatype json = JNull | JBool bool | JNum int | JDec int nat | JStr string
  | JArr "json list" | JObj "(string \<times> json) list"

datatype error = SyntaxError | TypeError | QuotaExceededError | InvalidCharacterError

section \<open>JSON.stringify and JSON.parse\<close>

text \<open>
  \<open>JSON.stringify\<close> prints without white space; a string is quoted with the escapes of
  \<open>QuoteJSONString\<close>, a number is printed by \<open>Number::toString\<close>: \<open>show_digits s n\<close> prints
  the number of significant digits \<open>s\<close> whose decimal point stands after \<open>n\<close> digits, in
  plain notation when \<open>-6 < n \<le> 21\<close> and with an exponent otherwise. \<open>JSON.parse\<close> is a recursive-descent parser over the JSON grammar
  (white space allowed between tokens, no leading zeros, an optional fraction and an
  optional exponent in a number, no raw control character in a string, a repeated key
  keeps its first position and its last value, the keys are listed in the order of the
  properties of an object). Its recursion is
  bounded by the length of the text, which is the fuel of \<open>p_value\<close>. A syntax error is
  \<open>Inl SyntaxError\<close>. An escape \<open>\u00XX\<close> is read as its code unit; an escape above
  \<open>\u00FF\<close> denotes a code unit that is no character of the model, so that a text with
  such an escape has no value here: \<open>hex4\<close> yields nothing for it, and nothing below is
  proved of such a text.
\<close>

definition digit_char :: "nat \<Rightarrow> char" where
  "digit_char n = ''0123456789abcdef'' ! n"

fun show_nat :: "nat \<Rightarrow> string" where
  "show_nat n = (if n < 10 then [digit_char n] else show_nat (n div 10) @ [digit_char (n mod 10)])"

declare show_nat.simps [simp del]

fun strip_zeros :: "nat \<Rightarrow> nat \<times> nat" where
  "strip_zeros a =
    (if a = 0 \<or> a mod 10 \<noteq> 0 then (a, 0)
     else (case strip_zeros (a div 10) of (b, z) \<Rightarrow> (b, z + 1)))"

declare strip_zeros.simps [simp del]

definition show_digits :: "string \<Rightarrow> int \<Rightarrow> string" where
  "show_digits s n =
    (let k = int (length s) in
       if k \<le> n \<and> n \<le> 21 then s @ replicate (nat (n - k)) CHR ''0''
       else if 0 < n \<and> n \<le> 21 then take (nat n) s @ CHR ''.'' # drop (nat n) s
       else if - 6 < n \<and> n \<le> 0 then CHR ''0'' # CHR ''.'' # replicate (nat (- n)) CHR ''0'' @ s
       else (if k = 1 then s else hd s # CHR ''.'' # tl s)
            @ CHR ''e'' # (if n - 1 < 0 then CHR ''-'' else CHR ''+'') # show_nat (nat (abs (n - 1))))"

definition show_abs :: "nat \<Rightarrow> string" where
  "show_abs a =
    (if a < 10 ^ 21 then show_nat a
     else (case strip_zeros a of (b, z) \<Rightarrow> show_digits (show_nat b) (int (length (show_nat b)) + int z)))"

definition show_int :: "int \<Rightarrow> string" where
  "show_int i = (if i < 0 then CHR ''-'' # show_abs (nat (- i)) else show_abs (nat i))"

definition show_dec :: "int \<Rightarrow> nat \<Rightarrow> string" where
  "show_dec m d =
    (let s = show_nat (nat (abs m)); t = show_digits s (int (length s) - int d)
     in if m < 0 then CHR ''-'' # t else t)"

definition quote_char :: "char \<Rightarrow> string" where
  "quote_char c =
    (if c = CHR 0x22 then [CHR 0x5C, CHR 0x22]
     else if c = CHR 0x5C then [CHR 0x5C, CHR 0x5C]
     else if c = CHR 0x08 then [CHR 0x5C, CHR ''b'']
     else if c = CHR 0x09 then [CHR 0x5C, CHR ''t'']
     else if c = CHR 0x0A then [CHR 0x5C, CHR ''n'']
     else if c = CHR 0x0C then [CHR 0x5C, CHR ''f'']
     else if c = CHR 0x0D then [CHR 0x5C, CHR ''r'']
     else if (of_char c :: nat) < 32
       then [CHR 0x5C, CHR ''u'', CHR ''0'', CHR ''0'', digit_char (of_char c div 16), digit_char (of_char c mod 16)]
     else [c])"

definition QuoteJSONString :: "string \<Rightarrow> string" where
  "QuoteJSONString s = CHR 0x22 # concat (map quote_char s) @ [CHR 0x22]"

fun join :: "string \<Rightarrow> string list \<Rightarrow> string" where
  "join sep [] = []"
| "join sep [x] = x"
| "join sep (x # y # ys) = x @ sep @ join sep (y # ys)"

fun JSON_stringify :: "json \<Rightarrow> string" where
  "JSON_stringify JNull = ''null''"
| "JSON_stringify (JBool b) = (if b then ''true'' else ''false'')"
| "JSON_stringify (JNum n) = show_int n"
| "JSON_stringify (JDec m d) = show_dec m d"
| "JSON_stringify (JStr s) = QuoteJSONString s"
| "JSON_stringify (JArr xs) = ''['' @ join '','' (map JSON_stringify xs) @ '']''"
| "JSON_stringify (JObj kvs) =
     ''{'' @ join '','' (map (\<lambda>(k, v). QuoteJSONString k @ '':'' @ JSON_stringify v) kvs) @ ''}''"

definition is_digit :: "char \<Rightarrow> bool" where
  "is_digit c = (c \<in> set ''0123456789'')"

definition digit_val :: "char \<Rightarrow> nat" where
  "digit_val c = of_char c - 48"

definition hex_val :: "char \<Rightarrow> nat option" where
  "hex_val c =
    (if is_digit c then Some (of_char c - 48)
     else if c \<in> set ''abcdef'' then Some (of_char c - 87)
     else if c \<in> set ''ABCDEF'' then Some (of_char c - 55)
     else None)"

definition json_ws :: "char \<Rightarrow> bool" where
  "json_ws c = (c = CHR 0x20 \<or> c = CHR 0x09 \<or> c = CHR 0x0A \<or> c = CHR 0x0D)"

definition skip_ws :: "string \<Rightarrow> string" where
  "skip_ws s = dropWhile json_ws s"

definition unescape :: "char \<Rightarrow> char option" where
  "unescape e =
    (if e = CHR 0x22 \<or> e = CHR 0x5C \<or> e = CHR ''/'' then Some e
     else if e = CHR ''b'' then Some (CHR 0x08)
     else if e = CHR ''f'' then Some (CHR 0x0C)
     else if e = CHR ''n'' then Some (CHR 0x0A)
     else if e = CHR ''r'' then Some (CHR 0x0D)
     else if e = CHR ''t'' then Some (CHR 0x09)
     else None)"

definition hex4 :: "char \<Rightarrow> char \<Rightarrow> char \<Rightarrow> char \<Rightarrow> char option" where
  "hex4 a b c d =
    (case (hex_val a, hex_val b, hex_val c, hex_val d) of
       (Some x, Some y, Some z, Some w) \<Rightarrow>
         (if x = 0 \<and> y = 0 then Some (char_of (16 * z + w)) else None)
     | _ \<Rightarrow> None)"

definition cons_fst :: "'a \<Rightarrow> ('a list \<times> 'b) option \<Rightarrow> ('a list \<times> 'b) option" where
  "cons_fst c r = map_option (\<lambda>(s, rest). (c # s, rest)) r"

fun p_string :: "string \<Rightarrow> (string \<times> string) option" where
  "p_string [] = None"
| "p_string (c # cs) =
    (if c = CHR 0x22 then Some ([], cs)
     else if c = CHR 0x5C then
       (case cs of
          [] \<Rightarrow> None
        | e # r \<Rightarrow>
            if e = CHR ''u'' then
              (case r of
                 h1 # h2 # h3 # h4 # r' \<Rightarrow>
                   (case hex4 h1 h2 h3 h4 of
                      None \<Rightarrow> None
                    | Some ch \<Rightarrow> cons_fst ch (p_string r'))
               | _ \<Rightarrow> None)
            else
              (case unescape e of
                 None \<Rightarrow> None
               | Some ch \<Rightarrow> cons_fst ch (p_string r)))
     else if (of_char c :: nat) < 32 then None
     else cons_fst c (p_string cs))"

definition read_nat :: "string \<Rightarrow> nat" where
  "read_nat ds = foldl (\<lambda>acc c. 10 * acc + digit_val c) 0 ds"

definition p_int :: "string \<Rightarrow> (string \<times> string) option" where
  "p_int s =
    (case s of
       [] \<Rightarrow> None
     | c # cs \<Rightarrow>
         if c = CHR ''0'' then Some ([c], cs)
         else if is_digit c then Some (takeWhile is_digit s, dropWhile is_digit s)
         else None)"

definition p_frac :: "string \<Rightarrow> (string \<times> string) option" where
  "p_frac s =
    (case s of
       [] \<Rightarrow> Some ([], s)
     | c # cs \<Rightarrow>
         if c = CHR ''.'' then
           (if takeWhile is_digit cs = [] then None
            else Some (takeWhile is_digit cs, dropWhile is_digit cs))
         else Some ([], s))"

definition p_exp_digits :: "bool \<Rightarrow> string \<Rightarrow> (int \<times> string) option" where
  "p_exp_digits neg s =
    (if takeWhile is_digit s = [] then None
     else Some (if neg then - int (read_nat (takeWhile is_digit s)) else int (read_nat (takeWhile is_digit s)),
                dropWhile is_digit s))"

definition p_exp :: "string \<Rightarrow> (int \<times> string) option" where
  "p_exp s =
    (case s of
       [] \<Rightarrow> Some (0, s)
     | c # cs \<Rightarrow>
         if c = CHR ''e'' \<or> c = CHR ''E'' then
           (case cs of
              [] \<Rightarrow> None
            | g # gs \<Rightarrow>
                if g = CHR ''-'' then p_exp_digits True gs
                else if g = CHR ''+'' then p_exp_digits False gs
                else p_exp_digits False cs)
         else Some (0, s))"

definition p_unsigned :: "string \<Rightarrow> ((nat \<times> int) \<times> string) option" where
  "p_unsigned s =
    (case p_int s of
       None \<Rightarrow> None
     | Some (ip, r1) \<Rightarrow>
         (case p_frac r1 of
            None \<Rightarrow> None
          | Some (fp, r2) \<Rightarrow>
              (case p_exp r2 of
                 None \<Rightarrow> None
               | Some (ex, r3) \<Rightarrow> Some ((read_nat (ip @ fp), ex - int (length fp)), r3))))"

fun strip_frac :: "nat \<Rightarrow> nat \<Rightarrow> nat \<times> nat" where
  "strip_frac m d =
    (if d = 0 \<or> m mod 10 \<noteq> 0 then (m, d) else strip_frac (m div 10) (d - 1))"

declare strip_frac.simps [simp del]

definition number_value :: "bool \<Rightarrow> nat \<times> int \<Rightarrow> json" where
  "number_value neg me =
    (case me of (m, e) \<Rightarrow>
       if m = 0 then JNum 0
       else if 0 \<le> e then JNum ((if neg then - 1 else 1) * int m * 10 ^ nat e)
       else (case strip_frac m (nat (- e)) of (m', d) \<Rightarrow>
               if d = 0 then JNum ((if neg then - 1 else 1) * int m')
               else JDec ((if neg then - 1 else 1) * int m') d))"

definition p_number :: "string \<Rightarrow> (json \<times> string) option" where
  "p_number s =
    (case s of
       [] \<Rightarrow> None
     | c # cs \<Rightarrow>
         if c = CHR ''-'' then map_option (\<lambda>(me, r). (number_value True me, r)) (p_unsigned cs)
         else map_option (\<lambda>(me, r). (number_value False me, r)) (p_unsigned s))"

text \<open>
  An object lists its properties as \<open>OrdinaryOwnPropertyKeys\<close> does: first the names that
  are array indices (the canonical decimal numerals below \<open>2^32 - 1\<close>), in ascending order,
  then the other names in the order of their creation. \<open>CreateDataProperty\<close> sets a
  property: an existing one keeps its place, a new one takes the place of its name.
\<close>

definition is_index :: "string \<Rightarrow> bool" where
  "is_index k =
    (if list_all is_digit k then k = show_nat (read_nat k) \<and> read_nat k < 4294967295 else False)"

fun insert_index :: "string \<Rightarrow> json \<Rightarrow> (string \<times> json) list \<Rightarrow> (string \<times> json) list" where
  "insert_index k v [] = [(k, v)]"
| "insert_index k v (kv # kvs) =
    (if is_index (fst kv) \<and> read_nat (fst kv) < read_nat k then kv # insert_index k v kvs
     else (k, v) # kv # kvs)"

definition CreateDataProperty :: "string \<Rightarrow> json \<Rightarrow> (string \<times> json) list \<Rightarrow> (string \<times> json) list" where
  "CreateDataProperty k v kvs =
    (if is_index k then
       (case map_of kvs k of
          None \<Rightarrow> insert_index k v kvs
        | Some x \<Rightarrow> AList.update k v kvs)
     else AList.update k v kvs)"

definition p_literal :: "string \<Rightarrow> json \<Rightarrow> string \<Rightarrow> (json \<times> string) option" where
  "p_literal w v s = (if take (length w) s = w then Some (v, drop (length w) s) else None)"

fun p_value :: "nat \<Rightarrow> string \<Rightarrow> (json \<times> string) option"
  and p_elems :: "nat \<Rightarrow> string \<Rightarrow> (json list \<times> string) option"
  and p_members :: "nat \<Rightarrow> (string \<times> json) list \<Rightarrow> string \<Rightarrow> ((string \<times> json) list \<times> string) option"
where
  "p_value 0 s = None"
| "p_value (Suc f) s =
    (case s of
       [] \<Rightarrow> None
     | c # cs \<Rightarrow>
         if c = CHR ''n'' then p_literal ''null'' JNull s
         else if c = CHR ''t'' then p_literal ''true'' (JBool True) s
         else if c = CHR ''f'' then p_literal ''false'' (JBool False) s
         else if c = CHR 0x22 then map_option (\<lambda>(x, r). (JStr x, r)) (p_string cs)
         else if c = CHR ''['' then
           (case skip_ws cs of
              [] \<Rightarrow> None
            | d # ds \<Rightarrow>
                if d = CHR '']'' then Some (JArr [], ds)
                else map_option (\<lambda>(xs, r). (JArr xs, r)) (p_elems f (d # ds)))
         else if c = CHR ''{'' then
           (case skip_ws cs of
              [] \<Rightarrow> None
            | d # ds \<Rightarrow>
                if d = CHR ''}'' then Some (JObj [], ds)
                else map_option (\<lambda>(kvs, r). (JObj kvs, r)) (p_members f [] (d # ds)))
         else p_number s)"
| "p_elems 0 s = None"
| "p_elems (Suc f) s =
    (case p_value f s of
       None \<Rightarrow> None
     | Some (v, r) \<Rightarrow>
         (case skip_ws r of
            [] \<Rightarrow> None
          | d # ds \<Rightarrow>
              if d = CHR '']'' then Some ([v], ds)
              else if d = CHR '','' then cons_fst v (p_elems f (skip_ws ds))
              else None))"
| "p_members 0 acc s = None"
| "p_members (Suc f) acc s =
    (case s of
       [] \<Rightarrow> None
     | q # cs \<Rightarrow>
         if q \<noteq> CHR 0x22 then None
         else
           (case p_string cs of
              None \<Rightarrow> None
            | Some (k, r) \<Rightarrow>
                (case skip_ws r of
                   [] \<Rightarrow> None
                 | col # r1 \<Rightarrow>
                     if col \<noteq> CHR '':'' then None
                     else
                       (case p_value f (skip_ws r1) of
                          None \<Rightarrow> None
                        | Some (v, r2) \<Rightarrow>
                            (case skip_ws r2 of
                               [] \<Rightarrow> None
                             | d # ds \<Rightarrow>
                                 if d = CHR ''}'' then Some (CreateDataProperty k v acc, ds)
                                 else if d = CHR '','' then
                                   p_members f (CreateDataProperty k v acc) (skip_ws ds)
                                 else None)))))"

definition JSON_parse :: "string \<Rightarrow> error + json" where
  "JSON_parse s =
    (case p_value (Suc (length s)) (skip_ws s) of
       None \<Rightarrow> Inl SyntaxError
     | Some (v, r) \<Rightarrow> if skip_ws r = [] then Inr v else Inl SyntaxError)"

section \<open>Truthiness, property reads and numeric conversion\<close>

text \<open>
  \<open>truthy\<close> is the test of \<open>if (x)\<close>, \<open>!x\<close> and \<open>x && y\<close>: \<open>null\<close>, \<open>false\<close>, \<open>0\<close> and the
  empty string are falsy, and so is \<open>undefined\<close> (\<open>truthy_opt None\<close>). \<open>get_prop\<close> reads a
  property of a value that is not \<open>null\<close>; the names the code reads (\<open>exp\<close>, \<open>timestamp\<close>,
  \<open>lastActivity\<close>, \<open>username\<close>, ...) are inherited from no prototype, so anything but an object
  yields \<open>undefined\<close>. \<open>set_prop\<close> assigns a property; on a primitive the assignment is
  dropped.
\<close>

fun truthy :: "json \<Rightarrow> bool" where
  "truthy JNull = False"
| "truthy (JBool b) = b"
| "truthy (JNum n) = (n \<noteq> 0)"
| "truthy (JDec m d) = (m \<noteq> 0)"
| "truthy (JStr s) = (s \<noteq> [])"
| "truthy (JArr xs) = True"
| "truthy (JObj kvs) = True"

definition truthy_opt :: "json option \<Rightarrow> bool" where
  "truthy_opt x = (case x of None \<Rightarrow> False | Some v \<Rightarrow> truthy v)"

fun get_prop :: "json \<Rightarrow> string \<Rightarrow> json option" where
  "get_prop (JObj kvs) k = map_of kvs k"
| "get_prop v k = None"

fun set_prop :: "json \<Rightarrow> string \<Rightarrow> json \<Rightarrow> json" where
  "set_prop (JObj kvs) k x = JObj (CreateDataProperty k x kvs)"
| "set_prop v k x = v"

fun is_array :: "json \<Rightarrow> bool" where
  "is_array (JArr xs) = True"
| "is_array v = False"

text \<open>
  \<open>ToNumber\<close>: a string is trimmed of white space and read by the grammar of
  \<open>StringNumericLiteral\<close>: the empty string is 0, then a binary, octal or hexadecimal
  integer (\<open>0b\<close>, \<open>0o\<close>, \<open>0x\<close>, unsigned), or an optionally signed \<open>Infinity\<close> or decimal
  literal (digits, an optional point and fraction, an optional exponent; leading zeros are
  allowed, and so are \<open>5.\<close> and \<open>.5\<close>); any other string is \<open>NaN\<close>. A number is its exact
  rational value, \<open>Inf True\<close> is \<open>+Infinity\<close> and \<open>Inf False\<close> is \<open>-Infinity\<close>. An array is
  converted through its \<open>toString\<close>, an object is \<open>NaN\<close>, and so is \<open>undefined\<close>. A
  comparison with \<open>NaN\<close> is false.
\<close>

datatype jsnum = NaN | Num rat | Inf bool

abbreviation NumZ :: "int \<Rightarrow> jsnum" where
  "NumZ i \<equiv> Num (of_int i)"

definition js_space :: "char \<Rightarrow> bool" where
  "js_space c = (c \<in> set [CHR 0x09, CHR 0x0A, CHR 0x0B, CHR 0x0C, CHR 0x0D, CHR 0x20, CHR 0xA0])"

definition trim :: "string \<Rightarrow> string" where
  "trim s = rev (dropWhile js_space (rev (dropWhile js_space s)))"

fun js_neg :: "jsnum \<Rightarrow> jsnum" where
  "js_neg NaN = NaN"
| "js_neg (Num a) = Num (- a)"
| "js_neg (Inf p) = Inf (\<not> p)"

definition radix_val :: "nat \<Rightarrow> char \<Rightarrow> nat option" where
  "radix_val b c = (case hex_val c of None \<Rightarrow> None | Some v \<Rightarrow> if v < b then Some v else None)"

definition read_radix :: "nat \<Rightarrow> string \<Rightarrow> jsnum" where
  "read_radix b ds =
    (if ds \<noteq> [] \<and> list_all (\<lambda>c. radix_val b c \<noteq> None) ds
     then Num (of_nat (foldl (\<lambda>acc c. b * acc + (case radix_val b c of None \<Rightarrow> 0 | Some v \<Rightarrow> v)) 0 ds))
     else NaN)"

definition dec_value :: "nat \<Rightarrow> int \<Rightarrow> rat" where
  "dec_value m e = (if 0 \<le> e then of_nat m * 10 ^ nat e else of_nat m / 10 ^ nat (- e))"

definition StrUnsignedDecimalLiteral :: "string \<Rightarrow> jsnum" where
  "StrUnsignedDecimalLiteral s =
    (if s = ''Infinity'' then Inf True
     else
       (let ip = takeWhile is_digit s;
            r1 = dropWhile is_digit s;
            fp = (case r1 of [] \<Rightarrow> [] | c # cs \<Rightarrow> if c = CHR ''.'' then takeWhile is_digit cs else []);
            r2 = (case r1 of [] \<Rightarrow> [] | c # cs \<Rightarrow> if c = CHR ''.'' then dropWhile is_digit cs else r1)
        in if ip = [] \<and> fp = [] then NaN
           else (case p_exp r2 of
                   None \<Rightarrow> NaN
                 | Some (ex, r3) \<Rightarrow>
                     if r3 = [] then Num (dec_value (read_nat (ip @ fp)) (ex - int (length fp)))
                     else NaN)))"

definition StringToNumber :: "string \<Rightarrow> jsnum" where
  "StringToNumber s =
    (case trim s of
       [] \<Rightarrow> Num 0
     | c # cs \<Rightarrow>
         if c = CHR ''0'' \<and> take 1 cs \<in> {''x'', ''X''} then read_radix 16 (drop 1 cs)
         else if c = CHR ''0'' \<and> take 1 cs \<in> {''o'', ''O''} then read_radix 8 (drop 1 cs)
         else if c = CHR ''0'' \<and> take 1 cs \<in> {''b'', ''B''} then read_radix 2 (drop 1 cs)
         else if c = CHR ''-'' then js_neg (StrUnsignedDecimalLiteral cs)
         else if c = CHR ''+'' then StrUnsignedDecimalLiteral cs
         else StrUnsignedDecimalLiteral (c # cs))"

fun ToString :: "json \<Rightarrow> string" where
  "ToString JNull = ''null''"
| "ToString (JBool b) = (if b then ''true'' else ''false'')"
| "ToString (JNum n) = show_int n"
| "ToString (JDec m d) = show_dec m d"
| "ToString (JStr s) = s"
| "ToString (JArr xs) = join '','' (map (\<lambda>x. if x = JNull then [] else ToString x) xs)"
| "ToString (JObj kvs) = ''[object Object]''"

fun ToNumber :: "json \<Rightarrow> jsnum" where
  "ToNumber JNull = Num 0"
| "ToNumber (JBool b) = Num (if b then 1 else 0)"
| "ToNumber (JNum n) = NumZ n"
| "ToNumber (JDec m d) = Num (of_int m / 10 ^ d)"
| "ToNumber (JStr s) = StringToNumber s"
| "ToNumber (JArr xs) = StringToNumber (ToString (JArr xs))"
| "ToNumber (JObj kvs) = NaN"

definition ToNumber_opt :: "json option \<Rightarrow> jsnum" where
  "ToNumber_opt x = (case x of None \<Rightarrow> NaN | Some v \<Rightarrow> ToNumber v)"

fun js_lt :: "jsnum \<Rightarrow> jsnum \<Rightarrow> bool" where
  "js_lt (Num a) (Num b) = (a < b)"
| "js_lt (Num a) (Inf q) = q"
| "js_lt (Inf p) (Num b) = (\<not> p)"
| "js_lt (Inf p) (Inf q) = (\<not> p \<and> q)"
| "js_lt x y = False"

fun js_ge :: "jsnum \<Rightarrow> jsnum \<Rightarrow> bool" where
  "js_ge (Num a) (Num b) = (a \<ge> b)"
| "js_ge (Num a) (Inf q) = (\<not> q)"
| "js_ge (Inf p) (Num b) = p"
| "js_ge (Inf p) (Inf q) = (p \<or> \<not> q)"
| "js_ge x y = False"

fun js_le :: "jsnum \<Rightarrow> jsnum \<Rightarrow> bool" where
  "js_le (Num a) (Num b) = (a \<le> b)"
| "js_le (Num a) (Inf q) = q"
| "js_le (Inf p) (Num b) = (\<not> p)"
| "js_le (Inf p) (Inf q) = (\<not> p \<or> q)"
| "js_le x y = False"

fun js_gt :: "jsnum \<Rightarrow> jsnum \<Rightarrow> bool" where
  "js_gt (Num a) (Num b) = (a > b)"
| "js_gt (Num a) (Inf q) = (\<not> q)"
| "js_gt (Inf p) (Num b) = p"
| "js_gt (Inf p) (Inf q) = (p \<and> \<not> q)"
| "js_gt x y = False"

fun js_sub :: "jsnum \<Rightarrow> jsnum \<Rightarrow> jsnum" where
  "js_sub (Num a) (Num b) = Num (a - b)"
| "js_sub (Num a) (Inf q) = Inf (\<not> q)"
| "js_sub (Inf p) (Num b) = Inf p"
| "js_sub (Inf p) (Inf q) = (if p = q then NaN else Inf p)"
| "js_sub x y = NaN"

section \<open>The browser's localStorage\<close>

text \<open>
  \<open>localStorage\<close> maps keys to texts, in insertion order. The browser refuses a write that
  would make the store outgrow its quota (\<open>QuotaExceededError\<close>); the size counted is the
  one \<open>StorageUtil.getSize\<close> computes, the lengths of the keys and of the texts.
\<close>

record local_storage =
  items :: "(string \<times> string) list"
  quota :: nat

definition getSize :: "(string \<times> string) list \<Rightarrow> nat" where
  "getSize kvs = sum_list (map (\<lambda>(k, v). length v + length k) kvs)"

definition getItem :: "local_storage \<Rightarrow> string \<Rightarrow> string option" where
  "getItem ls key = map_of (items ls) key"

definition setItem :: "local_storage \<Rightarrow> string \<Rightarrow> string \<Rightarrow> error + local_storage" where
  "setItem ls key text =
    (let items' = AList.update key text (items ls)
     in if getSize items' > quota ls then Inl QuotaExceededError
        else Inr (ls\<lparr>items := items'\<rparr>))"

definition removeItem :: "local_storage \<Rightarrow> string \<Rightarrow> local_storage" where
  "removeItem ls key = ls\<lparr>items := AList.delete key (items ls)\<rparr>"

section \<open>StorageUtil (js/utils/storage.js)\<close>

text \<open>
  Every function takes the store and returns it updated. \<open>Date.now()\<close> is the argument
  \<open>now\<close>: one synchronous call sees one instant. Console output is not modelled.
\<close>

definition StorageUtil_remove :: "local_storage \<Rightarrow> string \<Rightarrow> bool \<times> local_storage" where
  "StorageUtil_remove ls key = (True, removeItem ls key)"

definition old_item :: "int \<Rightarrow> string \<Rightarrow> bool" where
  "old_item thirtyDaysAgo text =
    (case JSON_parse text of
       Inl e \<Rightarrow> False
     | Inr data \<Rightarrow>
         truthy data \<and> truthy_opt (get_prop data ''timestamp'')
         \<and> js_lt (ToNumber_opt (get_prop data ''timestamp'')) (NumZ thirtyDaysAgo))"

definition clearOldData :: "int \<Rightarrow> local_storage \<Rightarrow> local_storage" where
  "clearOldData now ls =
    (let thirtyDaysAgo = now - 30 * 24 * 60 * 60 * 1000;
         keysToRemove = map fst (filter (\<lambda>(key, text). old_item thirtyDaysAgo text) (items ls))
     in fold (\<lambda>key st. snd (StorageUtil_remove st key)) keysToRemove ls)"

definition StorageUtil_set :: "int \<Rightarrow> local_storage \<Rightarrow> string \<Rightarrow> json \<Rightarrow> bool \<times> local_storage" where
  "StorageUtil_set now ls key v =
    (case setItem ls key (JSON_stringify v) of
       Inr ls' \<Rightarrow> (True, ls')
     | Inl e \<Rightarrow>
         if e = QuotaExceededError then
           (let ls1 = clearOldData now ls
            in case setItem ls1 key (JSON_stringify v) of
                 Inr ls2 \<Rightarrow> (True, ls2)
               | Inl retryError \<Rightarrow> (False, ls1))
         else (False, ls))"

text \<open>
  \<open>get\<close> is a \<open>try\<close> block with a \<open>catch\<close> that returns the default value: \<open>get_try\<close> is the
  block, whose only exception is the \<open>SyntaxError\<close> of \<open>JSON.parse\<close>.
\<close>

definition get_try :: "local_storage \<Rightarrow> string \<Rightarrow> json \<Rightarrow> error + json" where
  "get_try ls key defaultValue =
    (case getItem ls key of
       None \<Rightarrow> Inr defaultValue
     | Some item \<Rightarrow> JSON_parse item)"

definition StorageUtil_get :: "local_storage \<Rightarrow> string \<Rightarrow> json \<Rightarrow> json" where
  "StorageUtil_get ls key defaultValue =
    (case get_try ls key defaultValue of
       Inr v \<Rightarrow> v
     | Inl e \<Rightarrow> defaultValue)"

definition StorageUtil_append :: "int \<Rightarrow> local_storage \<Rightarrow> string \<Rightarrow> json \<Rightarrow> bool \<times> local_storage" where
  "StorageUtil_append now ls key v =
    (case StorageUtil_get ls key (JArr []) of
       JArr existing \<Rightarrow> StorageUtil_set now ls key (JArr (existing @ [v]))
     | other \<Rightarrow> (False, ls))"

section \<open>btoa and atob\<close>

text \<open>
  \<open>btoa\<close> is base64 with padding. \<open>atob\<close> is the forgiving decoder of the HTML standard:
  it drops ASCII white space, accepts a text with or without its padding, and raises
  \<open>InvalidCharacterError\<close> on a length of 1 modulo 4 or a character outside the alphabet.
\<close>

text \<open>
  The base64 alphabet: \<open>A\<close>-\<open>Z\<close> are the digits 0 to 25, \<open>a\<close>-\<open>z\<close> 26 to 51, \<open>0\<close>-\<open>9\<close> 52 to 61,
  \<open>+\<close> is 62 and \<open>/\<close> is 63.
\<close>

definition b64_char :: "nat \<Rightarrow> char" where
  "b64_char n =
    (if n < 26 then char_of (65 + n)
     else if n < 52 then char_of (71 + n)
     else if n < 62 then char_of (n - 4)
     else if n = 62 then CHR ''+''
     else CHR ''/'')"

definition b64_val :: "char \<Rightarrow> nat option" where
  "b64_val c =
    (let n = of_char c :: nat
     in if 65 \<le> n \<and> n \<le> 90 then Some (n - 65)
        else if 97 \<le> n \<and> n \<le> 122 then Some (n - 71)
        else if 48 \<le> n \<and> n \<le> 57 then Some (n + 4)
        else if c = CHR ''+'' then Some 62
        else if c = CHR ''/'' then Some 63
        else None)"

fun sextets :: "string \<Rightarrow> nat list" where
  "sextets [] = []"
| "sextets [a] = [of_char a div 4, of_char a mod 4 * 16]"
| "sextets [a, b] =
    [of_char a div 4, of_char a mod 4 * 16 + of_char b div 16, of_char b mod 16 * 4]"
| "sextets (a # b # c # rest) =
    [of_char a div 4, of_char a mod 4 * 16 + of_char b div 16,
     of_char b mod 16 * 4 + of_char c div 64, of_char c mod 64] @ sextets rest"

definition b64_text :: "string \<Rightarrow> string" where
  "b64_text s = map b64_char (sextets s)"

definition btoa :: "string \<Rightarrow> string" where
  "btoa s =
    b64_text s @ (if length s mod 3 = 1 then ''=='' else if length s mod 3 = 2 then ''='' else [])"

fun octets :: "nat list \<Rightarrow> string" where
  "octets (w # x # y # z # rest) =
    [char_of (w * 4 + x div 16), char_of (x mod 16 * 16 + y div 4), char_of (y mod 4 * 64 + z)]
      @ octets rest"
| "octets [w, x, y] = [char_of (w * 4 + x div 16), char_of (x mod 16 * 16 + y div 4)]"
| "octets [w, x] = [char_of (w * 4 + x div 16)]"
| "octets xs = []"

definition ascii_ws :: "char \<Rightarrow> bool" where
  "ascii_ws c = (c \<in> set [CHR 0x09, CHR 0x0A, CHR 0x0C, CHR 0x0D, CHR 0x20])"

definition strip_padding :: "string \<Rightarrow> string" where
  "strip_padding s =
    (if length s mod 4 = 0 \<and> s \<noteq> [] \<and> last s = CHR ''='' then
       (if butlast s \<noteq> [] \<and> last (butlast s) = CHR ''='' then butlast (butlast s) else butlast s)
     else s)"

definition atob :: "string \<Rightarrow> error + string" where
  "atob s =
    (let d = strip_padding (filter (\<lambda>c. \<not> ascii_ws c) s)
     in if length d mod 4 = 1 then Inl InvalidCharacterError
        else (case those (map b64_val d) of
                None \<Rightarrow> Inl InvalidCharacterError
              | Some vs \<Rightarrow> Inr (octets vs)))"

section \<open>Configuration (CONFIG in js/utils/api.js)\<close>

definition AUTH_TOKEN :: string where "AUTH_TOKEN = ''db_auth_token''"
definition USER_DATA :: string where "USER_DATA = ''db_user_data''"
definition USERS :: string where "USERS = ''db_users''"
definition ADMIN_SESSION :: string where "ADMIN_SESSION = ''db_admin_session''"
definition REMEMBER_ME :: string where "REMEMBER_ME = ''db_remember_me''"

definition CONFIG_ADMIN_USERNAME :: string where "CONFIG_ADMIN_USERNAME = ''admin''"
definition CONFIG_ADMIN_PASSWORD :: string where "CONFIG_ADMIN_PASSWORD = ''admin12345''"
definition CONFIG_ADMIN_EMAIL :: string where
  "CONFIG_ADMIN_EMAIL = ''admin@dbgeneralconstruction.com.et''"

definition TIMEOUT :: int where "TIMEOUT = 30 * 60 * 1000"
definition WARNING_TIME :: int where "WARNING_TIME = 5 * 60 * 1000"

section \<open>AuthUtil (js/utils/auth.js)\<close>

text \<open>
  The state of the page: the store, whether the interval of the session checker is armed
  (\<open>window.sessionCheckInterval\<close>), the path of the page, the address a redirect went to and
  the alerts shown.
\<close>

record browser =
  storage :: local_storage
  sessionCheckInterval :: bool
  pathname :: string
  redirect :: "string option"
  alerts :: "string list"

record login_result =
  res_success :: bool
  res_user :: "json option"
  res_token :: "string option"
  res_message :: string

text \<open>
  An object literal whose property may be \<open>undefined\<close> (\<open>{ userId: user.id, ... }\<close>):
  \<open>JSON.stringify\<close> leaves such a property out.
\<close>

definition object_of :: "(string \<times> json option) list \<Rightarrow> (string \<times> json) list" where
  "object_of ps = concat (map (\<lambda>(k, x). case x of None \<Rightarrow> [] | Some v \<Rightarrow> [(k, v)]) ps)"

definition generateToken :: "int \<Rightarrow> (string \<times> json) list \<Rightarrow> int option \<Rightarrow> string" where
  "generateToken now payload expiry =
    (let header = btoa (JSON_stringify (JObj [(''alg'', JStr ''HS256''), (''typ'', JStr ''JWT'')]));
         body = btoa (JSON_stringify (JObj
           (AList.update ''exp''
              (JNum (now + (case expiry of
                              None \<Rightarrow> TIMEOUT
                            | Some e \<Rightarrow> if e = 0 then TIMEOUT else e)))
              (AList.update ''iat'' (JNum now) payload))));
         signature = btoa (''mock-signature-'' @ show_int now)
     in header @ ''.'' @ body @ ''.'' @ signature)"

fun split :: "char \<Rightarrow> string \<Rightarrow> string list" where
  "split sep [] = [[]]"
| "split sep (c # cs) =
    (if c = sep then [] # split sep cs
     else (case split sep cs of
             [] \<Rightarrow> [[c]]
           | part # parts \<Rightarrow> (c # part) # parts))"

definition decodeToken_try :: "json \<Rightarrow> error + json" where
  "decodeToken_try token =
    (case token of
       JStr t \<Rightarrow>
         if t = [] then Inr JNull
         else (let parts = split (CHR ''.'') t
               in if length parts \<noteq> 3 then Inr JNull
                  else (case atob (parts ! 1) of
                          Inl e \<Rightarrow> Inl e
                        | Inr text \<Rightarrow> JSON_parse text))
     | other \<Rightarrow> Inr JNull)"

definition decodeToken :: "json \<Rightarrow> json" where
  "decodeToken token = (case decodeToken_try token of Inr payload \<Rightarrow> payload | Inl e \<Rightarrow> JNull)"

definition verifyToken :: "int \<Rightarrow> json \<Rightarrow> bool" where
  "verifyToken now token =
    (let payload = decodeToken token
     in if \<not> truthy payload then False
        else if truthy_opt (get_prop payload ''exp'')
                \<and> js_lt (ToNumber_opt (get_prop payload ''exp'')) (NumZ now) then False
        else True)"

definition StorageUtil_set' :: "int \<Rightarrow> string \<Rightarrow> json \<Rightarrow> browser \<Rightarrow> browser" where
  "StorageUtil_set' now key v b = b\<lparr>storage := snd (StorageUtil_set now (storage b) key v)\<rparr>"

definition StorageUtil_remove' :: "string \<Rightarrow> browser \<Rightarrow> browser" where
  "StorageUtil_remove' key b = b\<lparr>storage := snd (StorageUtil_remove (storage b) key)\<rparr>"

definition startSessionChecker :: "browser \<Rightarrow> browser" where
  "startSessionChecker b = b\<lparr>sessionCheckInterval := True\<rparr>"

definition clearSession :: "browser \<Rightarrow> browser" where
  "clearSession b = b\<lparr>sessionCheckInterval := False\<rparr>"

definition initSession :: "int \<Rightarrow> browser \<Rightarrow> browser" where
  "initSession now b =
    (let session = JObj [(''startTime'', JNum now), (''lastActivity'', JNum now),
                         (''warningShown'', JBool False)]
     in startSessionChecker (StorageUtil_set' now ADMIN_SESSION session b))"

definition authenticateAdmin :: "int \<Rightarrow> browser \<Rightarrow> string \<Rightarrow> string \<Rightarrow> login_result \<times> browser" where
  "authenticateAdmin now b username password =
    (let ADMIN_USERNAME = ''admin''; ADMIN_PASSWORD = ''admin12345''
     in if username = ADMIN_USERNAME \<and> password = ADMIN_PASSWORD then
          (let user = JObj [(''id'', JStr ''admin-001''), (''username'', JStr ADMIN_USERNAME),
                            (''email'', JStr ''admin@dbconstruction.com''),
                            (''name'', JStr ''Administrator''), (''role'', JStr ''admin''),
                            (''isActive'', JBool True)];
               token = generateToken now
                 (object_of [(''userId'', get_prop user ''id''), (''role'', get_prop user ''role'')]) None;
               b1 = StorageUtil_set' now AUTH_TOKEN (JStr token) b;
               b2 = StorageUtil_set' now USER_DATA user b1;
               b3 = initSession now b2
           in (\<lparr>res_success = True, res_user = Some user, res_token = Some token,
                 res_message = ''Admin login successful''\<rparr>, b3))
        else (\<lparr>res_success = False, res_user = None, res_token = None,
                res_message = ''Invalid admin credentials''\<rparr>, b))"

text \<open>
  \<open>users.find(...)\<close>: the first element that matches, with its index (the element is
  updated in place afterwards). Reading a property of a \<open>null\<close> element raises \<open>TypeError\<close>.
\<close>

fun find_user :: "nat \<Rightarrow> string \<Rightarrow> string \<Rightarrow> json list \<Rightarrow> error + (nat \<times> json) option" where
  "find_user i username password [] = Inr None"
| "find_user i username password (u # us) =
    (if u = JNull then Inl TypeError
     else if (get_prop u ''username'' = Some (JStr username)
              \<or> get_prop u ''email'' = Some (JStr username))
             \<and> get_prop u ''password'' = Some (JStr password)
             \<and> truthy_opt (get_prop u ''isActive'')
       then Inr (Some (i, u))
     else find_user (Suc i) username password us)"

definition delete_prop :: "json \<Rightarrow> string \<Rightarrow> json" where
  "delete_prop v k = (case v of JObj kvs \<Rightarrow> JObj (AList.delete k kvs) | other \<Rightarrow> other)"

text \<open>
  \<open>loginLocalStorage\<close>; \<open>isoNow\<close> is the text of \<open>new Date().toISOString()\<close>. A stored user list
  that is no array has no \<open>find\<close> method: \<open>TypeError\<close>.
\<close>

definition loginLocalStorage ::
  "int \<Rightarrow> string \<Rightarrow> browser \<Rightarrow> string \<Rightarrow> string \<Rightarrow> bool \<Rightarrow> error + login_result \<times> browser" where
  "loginLocalStorage now isoNow b username password rememberMe =
    (if username = CONFIG_ADMIN_USERNAME \<and> password = CONFIG_ADMIN_PASSWORD then
       (let user = JObj [(''id'', JStr ''admin-001''), (''username'', JStr CONFIG_ADMIN_USERNAME),
                         (''email'', JStr CONFIG_ADMIN_EMAIL), (''name'', JStr ''Dale Melaku''),
                         (''role'', JStr ''admin''), (''isActive'', JBool True)];
            tokenExpiry = (if rememberMe then 30 * 24 * 60 * 60 * 1000 else TIMEOUT);
            token = generateToken now
              (object_of [(''userId'', get_prop user ''id''), (''role'', get_prop user ''role'')])
              (Some tokenExpiry);
            b1 = StorageUtil_set' now AUTH_TOKEN (JStr token) b;
            b2 = StorageUtil_set' now USER_DATA user b1;
            b3 = (if rememberMe
                  then StorageUtil_set' now REMEMBER_ME
                         (JObj [(''enabled'', JBool True), (''expiry'', JNum (now + tokenExpiry))]) b2
                  else b2);
            b4 = initSession now b3
        in Inr (\<lparr>res_success = True, res_user = Some user, res_token = Some token,
                  res_message = ''Login successful''\<rparr>, b4))
     else
       (case StorageUtil_get (storage b) USERS (JArr []) of
          JArr users \<Rightarrow>
            (case find_user 0 username password users of
               Inl e \<Rightarrow> Inl e
             | Inr None \<Rightarrow>
                 Inr (\<lparr>res_success = False, res_user = None, res_token = None,
                        res_message = ''Invalid username or password''\<rparr>, b)
             | Inr (Some (i, user)) \<Rightarrow>
                 (let tokenExpiry = (if rememberMe then 30 * 24 * 60 * 60 * 1000 else TIMEOUT);
                      token = generateToken now
                        (object_of [(''userId'', get_prop user ''id''), (''role'', get_prop user ''role'')])
                        (Some tokenExpiry);
                      userData = delete_prop user ''password'';
                      b1 = StorageUtil_set' now AUTH_TOKEN (JStr token) b;
                      b2 = StorageUtil_set' now USER_DATA userData b1;
                      b3 = (if rememberMe
                            then StorageUtil_set' now REMEMBER_ME
                                   (JObj [(''enabled'', JBool True),
                                          (''expiry'', JNum (now + tokenExpiry))]) b2
                            else b2);
                      b4 = StorageUtil_set' now USERS
                             (JArr (users[i := set_prop user ''lastLogin'' (JStr isoNow)])) b3;
                      b5 = initSession now b4
                  in Inr (\<lparr>res_success = True, res_user = Some userData, res_token = Some token,
                            res_message = ''Login successful''\<rparr>, b5)))
        | other \<Rightarrow> Inl TypeError))"

definition logout :: "browser \<Rightarrow> bool \<times> browser" where
  "logout b =
    (True,
     clearSession
       (StorageUtil_remove' REMEMBER_ME
         (StorageUtil_remove' ADMIN_SESSION
           (StorageUtil_remove' USER_DATA
             (StorageUtil_remove' AUTH_TOKEN b)))))"

definition getCurrentUser :: "int \<Rightarrow> browser \<Rightarrow> json" where
  "getCurrentUser now b =
    (let token = StorageUtil_get (storage b) AUTH_TOKEN JNull
     in if \<not> truthy token \<or> \<not> verifyToken now token then JNull
        else StorageUtil_get (storage b) USER_DATA JNull)"

text \<open>
  \<open>isAuthenticated\<close> returns \<open>token && this.verifyToken(token)\<close>: the token itself when it
  is falsy (\<open>null\<close> when nothing is stored), the boolean of \<open>verifyToken\<close> otherwise.
\<close>

definition isAuthenticated :: "int \<Rightarrow> browser \<Rightarrow> json" where
  "isAuthenticated now b =
    (let token = StorageUtil_get (storage b) AUTH_TOKEN JNull
     in if truthy token then JBool (verifyToken now token) else token)"

definition updateActivity :: "int \<Rightarrow> browser \<Rightarrow> browser" where
  "updateActivity now b =
    (let session = StorageUtil_get (storage b) ADMIN_SESSION JNull
     in if truthy session
        then StorageUtil_set' now ADMIN_SESSION
               (set_prop (set_prop session ''lastActivity'' (JNum now)) ''warningShown'' (JBool False)) b
        else b)"

text \<open>The listener of \<open>mousedown\<close>, \<open>keydown\<close>, \<open>scroll\<close> and \<open>touchstart\<close>.\<close>

definition activityListener :: "int \<Rightarrow> browser \<Rightarrow> browser" where
  "activityListener now b = (if truthy (isAuthenticated now b) then updateActivity now b else b)"

text \<open>\<open>confirm(...)\<close> returns the user's answer, the argument \<open>ok\<close>.\<close>

definition showSessionWarning :: "int \<Rightarrow> bool \<Rightarrow> browser \<Rightarrow> browser" where
  "showSessionWarning now ok b = (if ok then updateActivity now b else b)"

fun includes_str :: "string \<Rightarrow> string \<Rightarrow> bool" where
  "includes_str needle [] = (needle = [])"
| "includes_str needle (c # cs) = (take (length needle) (c # cs) = needle \<or> includes_str needle cs)"

text \<open>
  The callback that \<open>startSessionChecker\<close> runs every minute. The session read at its start
  is a local copy: the warning may refresh the stored session, the copy keeps the old
  \<open>lastActivity\<close> and is written back.
\<close>

definition sessionCheck :: "int \<Rightarrow> bool \<Rightarrow> browser \<Rightarrow> browser" where
  "sessionCheck now ok b =
    (if \<not> truthy (isAuthenticated now b) then b\<lparr>sessionCheckInterval := False\<rparr>
     else
       (let session = StorageUtil_get (storage b) ADMIN_SESSION JNull
        in if \<not> truthy session then b
           else
             (let inactiveTime = js_sub (NumZ now) (ToNumber_opt (get_prop session ''lastActivity''));
                  b1 = (if js_ge inactiveTime (NumZ (TIMEOUT - WARNING_TIME))
                           \<and> \<not> truthy_opt (get_prop session ''warningShown'')
                        then StorageUtil_set' now ADMIN_SESSION
                               (set_prop session ''warningShown'' (JBool True))
                               (showSessionWarning now ok b)
                        else b)
              in if js_ge inactiveTime (NumZ TIMEOUT) then
                   (let b2 = (snd (logout b1))\<lparr>sessionCheckInterval := False\<rparr>
                    in if includes_str ''/admin/'' (pathname b2)
                       then b2\<lparr>alerts := alerts b2 @
                                 [''Your session has expired due to inactivity. Please login again.''],
                               redirect := Some ''/admin/login.html''\<rparr>
                       else b2)
                 else b1)))"

section \<open>Regular expressions\<close>

text \<open>
  The patterns of the validators are anchored at both ends and use character classes,
  sequence, alternative, \<open>?\<close>, \<open>*\<close>, \<open>+\<close> and bounded repetition \<open>{m,n}\<close>. \<open>RegExp.test\<close> on
  such a pattern decides whether the whole text is in the pattern's language; the model
  decides it with derivatives.
\<close>

datatype regex =
    Never
  | Empty
  | Chars string
  | Seq regex regex
  | Alt regex regex
  | Opt regex
  | Star regex
  | Plus regex
  | Rep nat nat regex

fun nullable :: "regex \<Rightarrow> bool" where
  "nullable Never = False"
| "nullable Empty = True"
| "nullable (Chars cs) = False"
| "nullable (Seq r s) = (nullable r \<and> nullable s)"
| "nullable (Alt r s) = (nullable r \<or> nullable s)"
| "nullable (Opt r) = True"
| "nullable (Star r) = True"
| "nullable (Plus r) = nullable r"
| "nullable (Rep lo hi r) = (lo \<le> hi \<and> (lo = 0 \<or> nullable r))"

fun deriv :: "char \<Rightarrow> regex \<Rightarrow> regex" where
  "deriv c Never = Never"
| "deriv c Empty = Never"
| "deriv c (Chars cs) = (if c \<in> set cs then Empty else Never)"
| "deriv c (Seq r s) =
    (if nullable r then Alt (Seq (deriv c r) s) (deriv c s) else Seq (deriv c r) s)"
| "deriv c (Alt r s) = Alt (deriv c r) (deriv c s)"
| "deriv c (Opt r) = deriv c r"
| "deriv c (Star r) = Seq (deriv c r) (Star r)"
| "deriv c (Plus r) = Seq (deriv c r) (Star r)"
| "deriv c (Rep lo hi r) =
    (if hi = 0 \<or> hi < lo then Never else Seq (deriv c r) (Rep (lo - 1) (hi - 1) r))"

definition regex_test :: "regex \<Rightarrow> string \<Rightarrow> bool" where
  "regex_test r s = nullable (fold deriv s r)"

text \<open>
  The language of a pattern, the texts it matches: \<open>cat\<close> concatenates two languages and
  \<open>pow\<close> repeats one a given number of times.
\<close>

definition cat :: "string set \<Rightarrow> string set \<Rightarrow> string set" where
  "cat A B = {u @ v | u v. u \<in> A \<and> v \<in> B}"

fun pow :: "string set \<Rightarrow> nat \<Rightarrow> string set" where
  "pow A 0 = {[]}"
| "pow A (Suc n) = cat A (pow A n)"

fun lang :: "regex \<Rightarrow> string set" where
  "lang Never = {}"
| "lang Empty = {[]}"
| "lang (Chars cs) = {[c] | c. c \<in> set cs}"
| "lang (Seq r s) = cat (lang r) (lang s)"
| "lang (Alt r s) = lang r \<union> lang s"
| "lang (Opt r) = insert [] (lang r)"
| "lang (Star r) = (\<Union>n. pow (lang r) n)"
| "lang (Plus r) = (\<Union>n. pow (lang r) (Suc n))"
| "lang (Rep lo hi r) = (\<Union>n \<in> {lo..hi}. pow (lang r) n)"

section \<open>ValidationUtil\<close>

definition alnum :: string where
  "alnum = ''abcdefghijklmnopqrstuvwxyzABCDEFGHIJKLMNOPQRSTUVWXYZ0123456789''"

definition local_chars :: string where
  "local_chars = alnum @ [CHR ''.'', CHR ''!'', CHR ''#'', CHR ''$'', CHR ''%'', CHR ''&'', CHR 0x27,
     CHR ''*'', CHR ''+'', CHR ''/'', CHR ''='', CHR ''?'', CHR ''^'', CHR ''_'', CHR 0x60,
     CHR ''{'', CHR ''|'', CHR ''}'', CHR ''~'', CHR ''-'']"

definition domain_label :: regex where
  "domain_label =
     Seq (Chars alnum) (Opt (Seq (Rep 0 61 (Chars (alnum @ ''-''))) (Chars alnum)))"

definition emailRegex :: regex where
  "emailRegex =
     Seq (Plus (Chars local_chars))
       (Seq (Chars ''@'')
         (Seq domain_label (Star (Seq (Chars ''.'') domain_label))))"

definition validateEmail :: "json option \<Rightarrow> bool" where
  "validateEmail email =
    (case email of
       Some (JStr s) \<Rightarrow> if s = [] then False else regex_test emailRegex (trim s)
     | other \<Rightarrow> False)"

definition phoneRegex :: regex where
  "phoneRegex =
     Seq (Alt (Seq (Chars ''+'') (Seq (Chars ''2'') (Seq (Chars ''5'') (Chars ''1'')))) (Chars ''0''))
       (Seq (Chars ''79'') (Rep 8 8 (Chars ''0123456789'')))"

definition validatePhone :: "json option \<Rightarrow> bool" where
  "validatePhone phone =
    (case phone of
       Some (JStr s) \<Rightarrow>
         if s = [] then False
         else regex_test phoneRegex (filter (\<lambda>c. \<not> (js_space c \<or> c = CHR ''-'')) s)
     | other \<Rightarrow> False)"

definition required :: "json option \<Rightarrow> bool" where
  "required v =
    (case v of
       None \<Rightarrow> False
     | Some JNull \<Rightarrow> False
     | Some (JStr s) \<Rightarrow> length (trim s) > 0
     | Some (JArr xs) \<Rightarrow> length xs > 0
     | Some other \<Rightarrow> True)"

definition opt_num :: "int option \<Rightarrow> jsnum" where
  "opt_num x = (case x of None \<Rightarrow> NaN | Some n \<Rightarrow> NumZ n)"

definition minLength :: "json option \<Rightarrow> int option \<Rightarrow> bool" where
  "minLength v minimum =
    (case v of
       Some (JStr s) \<Rightarrow> if s = [] then False else js_ge (NumZ (int (length (trim s)))) (opt_num minimum)
     | other \<Rightarrow> False)"

definition maxLength :: "json option \<Rightarrow> int option \<Rightarrow> bool" where
  "maxLength v maximum =
    (case v of
       Some (JStr s) \<Rightarrow> if s = [] then True else js_le (NumZ (int (length (trim s)))) (opt_num maximum)
     | other \<Rightarrow> True)"

definition numberRange :: "json option \<Rightarrow> int option \<Rightarrow> int option \<Rightarrow> bool" where
  "numberRange v minimum maximum =
    (let num = ToNumber_opt v
     in if num = NaN then False
        else js_ge num (opt_num minimum) \<and> js_le num (opt_num maximum))"

definition positiveNumber :: "json option \<Rightarrow> bool" where
  "positiveNumber v = (let num = ToNumber_opt v in num \<noteq> NaN \<and> js_gt num (Num 0))"

text \<open>
  A rule is \<open>{ type, params, message }\<close>; \<open>params\<close> and \<open>message\<close> may be missing
  (\<open>undefined\<close>). The parameters are \<open>min\<close> and \<open>max\<close>, the two that \<open>validateForm\<close> reads.
\<close>

record rule_params =
  p_min :: "int option"
  p_max :: "int option"

record rule =
  r_type :: string
  r_params :: "rule_params option"
  r_message :: "string option"

definition show_opt :: "int option \<Rightarrow> string" where
  "show_opt x = (case x of None \<Rightarrow> ''undefined'' | Some n \<Rightarrow> show_int n)"

text \<open>
  \<open>getErrorMessage\<close>: \<open>params\<close> defaults to \<open>{}\<close>. The entries \<open>fileType\<close> and \<open>fileSize\<close> are
  built from \<open>params.types\<close> and \<open>params.maxSize\<close>, which a rule's parameters do not have.
\<close>

definition getErrorMessage :: "string \<Rightarrow> string \<Rightarrow> rule_params option \<Rightarrow> string" where
  "getErrorMessage field rule_name params =
    (let ps = (case params of None \<Rightarrow> \<lparr>p_min = None, p_max = None\<rparr> | Some q \<Rightarrow> q);
         messages =
           [(''required'', field @ '' is required''),
            (''email'', ''Please enter a valid email address''),
            (''phone'', ''Please enter a valid phone number''),
            (''minLength'', field @ '' must be at least '' @ show_opt (p_min ps) @ '' characters''),
            (''maxLength'', field @ '' must not exceed '' @ show_opt (p_max ps) @ '' characters''),
            (''numberRange'', field @ '' must be between '' @ show_opt (p_min ps) @ '' and ''
               @ show_opt (p_max ps)),
            (''positiveNumber'', field @ '' must be a positive number''),
            (''url'', ''Please enter a valid URL''),
            (''fileType'', ''Invalid file type. Allowed types: undefined''),
            (''fileSize'', ''File size must not exceed NaN undefined'')]
     in case map_of messages rule_name of
          Some m \<Rightarrow> m
        | None \<Rightarrow> field @ '' is invalid'')"

text \<open>
  The \<open>switch\<close> of \<open>validateForm\<close>: reading \<open>params.min\<close> of a rule without \<open>params\<close> raises
  \<open>TypeError\<close>; an unknown rule type leaves \<open>valid\<close> true.
\<close>

definition rule_valid :: "json option \<Rightarrow> rule \<Rightarrow> error + bool" where
  "rule_valid v r =
    (if r_type r = ''required'' then Inr (required v)
     else if r_type r = ''email'' then Inr (validateEmail v)
     else if r_type r = ''phone'' then Inr (validatePhone v)
     else if r_type r = ''minLength'' then
       (case r_params r of None \<Rightarrow> Inl TypeError | Some ps \<Rightarrow> Inr (minLength v (p_min ps)))
     else if r_type r = ''maxLength'' then
       (case r_params r of None \<Rightarrow> Inl TypeError | Some ps \<Rightarrow> Inr (maxLength v (p_max ps)))
     else if r_type r = ''numberRange'' then
       (case r_params r of
          None \<Rightarrow> Inl TypeError
        | Some ps \<Rightarrow> Inr (numberRange v (p_min ps) (p_max ps)))
     else if r_type r = ''positiveNumber'' then Inr (positiveNumber v)
     else Inr True)"

definition rule_message :: "string \<Rightarrow> rule \<Rightarrow> string" where
  "rule_message field r =
    (case r_message r of
       None \<Rightarrow> getErrorMessage field (r_type r) (r_params r)
     | Some m \<Rightarrow> if m = [] then getErrorMessage field (r_type r) (r_params r) else m)"

text \<open>
  The inner loop over the rules of one field, with its \<open>break\<close>, and the outer loop over the
  fields of \<open>rules\<close>. The state is \<open>(errors, isValid)\<close>.
\<close>

fun rules_loop ::
  "string \<Rightarrow> json option \<Rightarrow> rule list \<Rightarrow> (string \<times> string) list \<times> bool
     \<Rightarrow> error + (string \<times> string) list \<times> bool" where
  "rules_loop field v [] st = Inr st"
| "rules_loop field v (r # rs) (errors, isValid) =
    (case rule_valid v r of
       Inl e \<Rightarrow> Inl e
     | Inr valid \<Rightarrow>
         if \<not> valid then Inr (AList.update field (rule_message field r) errors, False)
         else rules_loop field v rs (errors, isValid))"

fun fields_loop ::
  "(string \<times> json) list \<Rightarrow> (string \<times> rule list) list \<Rightarrow> (string \<times> string) list \<times> bool
     \<Rightarrow> error + (string \<times> string) list \<times> bool" where
  "fields_loop data [] st = Inr st"
| "fields_loop data ((field, fieldRules) # remaining) st =
    (case rules_loop field (map_of data field) fieldRules st of
       Inl e \<Rightarrow> Inl e
     | Inr st' \<Rightarrow> fields_loop data remaining st')"

definition validateForm ::
  "(string \<times> json) list \<Rightarrow> (string \<times> rule list) list \<Rightarrow> error + bool \<times> (string \<times> string) list" where
  "validateForm data rules =
    (case fields_loop data rules ([], True) of
       Inl e \<Rightarrow> Inl e
     | Inr (errors, isValid) \<Rightarrow> Inr (isValid, errors))"

section \<open>Well-formed values\<close>

text \<open>
  A JavaScript object has one value per property name: a value is well formed when the
  names of every object in it are distinct and listed in the order of its properties
  (\<open>key_order\<close>: what precedes an array index is a smaller array index), and every decimal
  fraction in it is in lowest terms (the digits that \<open>Number::toString\<close> prints end with
  no zero).
\<close>

fun key_order :: "string list \<Rightarrow> bool" where
  "key_order (k # k' # ks) =
    ((if is_index k' then is_index k \<and> read_nat k < read_nat k' else True) \<and> key_order (k' # ks))"
| "key_order ks = True"

fun wf_json :: "json \<Rightarrow> bool" where
  "wf_json (JArr xs) = (\<forall>x \<in> set xs. wf_json x)"
| "wf_json (JObj kvs) =
    (distinct (map fst kvs) \<and> key_order (map fst kvs) \<and> (\<forall>(k, v) \<in> set kvs. wf_json v))"
| "wf_json (JDec m d) = (0 < d \<and> m mod 10 \<noteq> 0)"
| "wf_json v = True"

text \<open>
  Notions of the proofs about the parser: the text of one member of an object, a first
  character that starts a value, a rest of the text that ends a number, and the statement
  that the parser reads the printed value back whatever follows it.
\<close>

definition member_text :: "string \<times> json \<Rightarrow> string" where
  "member_text = (\<lambda>(k, v). QuoteJSONString k @ '':'' @ JSON_stringify v)"

definition value_start :: "char \<Rightarrow> bool" where
  "value_start c = (\<not> json_ws c \<and> c \<noteq> CHR '']'' \<and> c \<noteq> CHR ''}'')"

definition number_end :: "string \<Rightarrow> bool" where
  "number_end r =
    (case r of [] \<Rightarrow> True | c # cs \<Rightarrow> \<not> is_digit c \<and> c \<noteq> CHR ''.'' \<and> c \<noteq> CHR ''e'' \<and> c \<noteq> CHR ''E'')"

definition parses :: "json \<Rightarrow> bool" where
  "parses v =
    (\<forall>f r. size v < f \<longrightarrow> number_end r \<longrightarrow> p_value f (JSON_stringify v @ r) = Some (v, r))"

text \<open>
  A store holds one text per key. \<open>token_payload\<close> is the payload that \<open>generateToken\<close>
  encodes; \<open>adminUser\<close> and \<open>adminToken\<close> are the user record and the token of
  \<open>authenticateAdmin\<close>; \<open>browser0\<close> is a page with an empty store of a given quota.
\<close>

definition wf_store :: "local_storage \<Rightarrow> bool" where
  "wf_store ls = distinct (map fst (items ls))"

definition token_payload :: "int \<Rightarrow> (string \<times> json) list \<Rightarrow> int option \<Rightarrow> json" where
  "token_payload now payload expiry =
     JObj (AList.update ''exp''
             (JNum (now + (case expiry of None \<Rightarrow> TIMEOUT | Some e \<Rightarrow> if e = 0 then TIMEOUT else e)))
             (AList.update ''iat'' (JNum now) payload))"

definition adminUser :: json where
  "adminUser = JObj [(''id'', JStr ''admin-001''), (''username'', JStr ''admin''),
     (''email'', JStr ''admin@dbconstruction.com''), (''name'', JStr ''Administrator''),
     (''role'', JStr ''admin''), (''isActive'', JBool True)]"

definition adminToken :: "int \<Rightarrow> string" where
  "adminToken now =
     generateToken now [(''userId'', JStr ''admin-001''), (''role'', JStr ''admin'')] None"

definition browser0 :: "nat \<Rightarrow> browser" where
  "browser0 q = \<lparr>storage = \<lparr>items = [], quota = q\<rparr>, sessionCheckInterval = False,
     pathname = ''/admin/index.html'', redirect = None, alerts = []\<rparr>"

text \<open>
  \<open>tails c A\<close> are the texts that follow a first character \<open>c\<close> in the language \<open>A\<close>.
  For \<open>validateForm\<close>: the first rule of a field that does not pass, the rule types whose
  check reads \<open>params\<close>, and what the returned \<open>errors\<close> must hold for a field.
\<close>

definition tails :: "char \<Rightarrow> string set \<Rightarrow> string set" where
  "tails c A = {w. c # w \<in> A}"






definition local_success :: "error + login_result \<times> browser \<Rightarrow> bool" where
  "local_success r = (case r of Inr (res, b) \<Rightarrow> res_success res | Inl e \<Rightarrow> False)"

definition local_role :: "error + login_result \<times> browser \<Rightarrow> json option" where
  "local_role r =
    (case r of
       Inr (res, b) \<Rightarrow> (case res_user res of Some u \<Rightarrow> get_prop u ''role'' | None \<Rightarrow> None)
     | Inl e \<Rightarrow> None)"

definition demo_users :: json where
  "demo_users = JArr
    [JObj [(''id'', JStr ''admin-001''), (''username'', JStr ''admin''),
           (''email'', JStr ''admin@dbconstruction.com''), (''password'', JStr ''admin12345''),
           (''name'', JStr ''Administrator''), (''role'', JStr ''admin''), (''projectIds'', JArr []),
           (''isActive'', JBool True)],
     JObj [(''id'', JStr ''staff-001''), (''username'', JStr ''moti.elias''),
           (''email'', JStr ''moti@dbconstruction.com''), (''password'', JStr ''staff123''),
           (''name'', JStr ''Moti Elias''), (''role'', JStr ''staff''),
           (''projectIds'', JArr [JStr ''proj-001'', JStr ''proj-002'', JStr ''proj-003'']),
           (''isActive'', JBool True)]]"

definition browser_demo :: browser where
  "browser_demo = (browser0 5000)\<lparr>storage := \<lparr>items = [(USERS, JSON_stringify demo_users)], quota = 5000\<rparr>\<rparr>"

definition expired_page :: "browser \<Rightarrow> browser" where
  "expired_page b =
    (if includes_str ''/admin/'' (pathname b)
     then b\<lparr>alerts := alerts b @ [''Your session has expired due to inactivity. Please login again.''],
             redirect := Some ''/admin/login.html''\<rparr>
     else b)"

definition browser_session :: browser where
  "browser_session = snd (authenticateAdmin 1000 (browser0 5000) ''admin'' ''admin12345'')"

section \<open>JSON.parse reads back what JSON.stringify prints\<close>

lemma hex_val_digit_char: "n < 16 \<Longrightarrow> hex_val (digit_char n) = Some n"
proof -
  have "\<forall>n \<in> set [0..<16]. hex_val (digit_char n) = Some n"
    by code_simp
  then show "n < 16 \<Longrightarrow> hex_val (digit_char n) = Some n" by simp
qed

lemma of_char_lt: "(of_char (c :: char) :: nat) < 256"
  by (cases c) (simp add: of_char_def horner_sum_eq_sum)

lemma hex4_control:
  assumes "(of_char c :: nat) < 32"
  shows "hex4 (CHR ''0'') (CHR ''0'') (digit_char (of_char c div 16)) (digit_char (of_char c mod 16))
           = Some c"
proof -
  have z: "hex_val (CHR ''0'') = Some 0"
    by (simp add: hex_val_def is_digit_def)
  have "(of_char c :: nat) div 16 < 16"
    using assms by (simp add: less_mult_imp_div_less)
  then have a: "hex_val (digit_char (of_char c div 16)) = Some (of_char c div 16)"
    by (rule hex_val_digit_char)
  have b: "hex_val (digit_char (of_char c mod 16)) = Some (of_char c mod 16)"
    by (rule hex_val_digit_char) simp
  show ?thesis by (simp add: hex4_def z a b)
qed

lemma p_string_cons_fst:
  "p_string t = Some (s, r) \<Longrightarrow> cons_fst c (p_string t) = Some (c # s, r)"
  by (simp add: cons_fst_def)

lemma p_string_quote_char:
  assumes "p_string t = Some (s, r)"
  shows "p_string (quote_char c @ t) = Some (c # s, r)"
proof -
  note [simp] = unescape_def cons_fst_def assms
  consider "c = CHR 0x22" | "c = CHR 0x5C" | "c = CHR 0x08" | "c = CHR 0x09" | "c = CHR 0x0A"
    | "c = CHR 0x0C" | "c = CHR 0x0D"
    | "c \<notin> {CHR 0x22, CHR 0x5C, CHR 0x08, CHR 0x09, CHR 0x0A, CHR 0x0C, CHR 0x0D}" "(of_char c :: nat) < 32"
    | "c \<notin> {CHR 0x22, CHR 0x5C, CHR 0x08, CHR 0x09, CHR 0x0A, CHR 0x0C, CHR 0x0D}" "\<not> (of_char c :: nat) < 32"
    by blast
  then show ?thesis
  proof cases
    case 8
    then show ?thesis using hex4_control [OF 8(2)] by (simp add: quote_char_def)
  next
    case 9
    then show ?thesis by (simp add: quote_char_def)
  qed (simp_all add: quote_char_def)
qed

lemma p_string_quoted:
  "p_string (concat (map quote_char s) @ CHR 0x22 # r) = Some (s, r)"
proof (induction s)
  case Nil
  then show ?case by simp
next
  case (Cons c s)
  then show ?case using p_string_quote_char [OF Cons.IH, of c] by simp
qed

lemma digit_char_props:
  assumes "n < 10"
  shows "is_digit (digit_char n)" and "digit_val (digit_char n) = n"
    and "digit_char n = CHR ''0'' \<longleftrightarrow> n = 0"
proof -
  have "\<forall>n \<in> set [0..<10]. is_digit (digit_char n) \<and> digit_val (digit_char n) = n
          \<and> (digit_char n = CHR ''0'' \<longleftrightarrow> n = 0)"
    by code_simp
  with assms show "is_digit (digit_char n)" and "digit_val (digit_char n) = n"
    and "digit_char n = CHR ''0'' \<longleftrightarrow> n = 0"
    by simp_all
qed

lemma show_nat_digits: "list_all is_digit (show_nat n)"
proof (induction n rule: show_nat.induct)
  case (1 n)
  then show ?case
    by (subst show_nat.simps) (simp add: digit_char_props(1))
qed

lemma show_nat_nonempty: "show_nat n \<noteq> []"
  by (subst show_nat.simps) simp

lemma read_nat_snoc: "read_nat (ds @ [d]) = 10 * read_nat ds + digit_val d"
  by (simp add: read_nat_def)

lemma read_show_nat: "read_nat (show_nat n) = n"
proof (induction n rule: show_nat.induct)
  case (1 n)
  show ?case
  proof (cases "n < 10")
    case True
    then show ?thesis
      by (subst show_nat.simps) (simp add: read_nat_def digit_char_props(2))
  next
    case False
    with 1 have "read_nat (show_nat (n div 10)) = n div 10" by simp
    with False show ?thesis
      by (subst show_nat.simps) (simp add: read_nat_snoc digit_char_props(2))
  qed
qed

lemma hd_show_nat_zero: "hd (show_nat n) = CHR ''0'' \<longleftrightarrow> n = 0"
proof (induction n rule: show_nat.induct)
  case (1 n)
  show ?case
  proof (cases "n < 10")
    case True
    then show ?thesis
      by (subst show_nat.simps) (simp add: digit_char_props(3))
  next
    case False
    with 1 have "hd (show_nat (n div 10)) = CHR ''0'' \<longleftrightarrow> n div 10 = 0" by simp
    moreover have "n div 10 \<noteq> 0" using False by simp
    ultimately show ?thesis using False show_nat_nonempty [of "n div 10"]
      by (subst show_nat.simps) simp
  qed
qed

lemma show_nat_zero: "show_nat 0 = ''0''"
  by (subst show_nat.simps) (simp add: digit_char_def)

lemma takeWhile_digits:
  "list_all is_digit ds \<Longrightarrow> number_end r \<Longrightarrow>
     takeWhile is_digit (ds @ r) = ds \<and> dropWhile is_digit (ds @ r) = r"
  by (induction ds) (auto simp: number_end_def split: list.splits)

lemma takeWhile_digits_then:
  "list_all is_digit ds \<Longrightarrow> \<not> is_digit c \<Longrightarrow>
     takeWhile is_digit (ds @ c # r) = ds \<and> dropWhile is_digit (ds @ c # r) = c # r"
  by (induction ds) auto

lemma read_nat_append: "read_nat (xs @ ys) = read_nat xs * 10 ^ length ys + read_nat ys"
proof (induction ys rule: rev_induct)
  case Nil
  then show ?case by (simp add: read_nat_def)
next
  case (snoc y ys)
  have "read_nat (xs @ ys @ [y]) = 10 * read_nat (xs @ ys) + digit_val y"
    using read_nat_snoc [of "xs @ ys" y] by simp
  then show ?case using snoc read_nat_snoc [of ys y] by (simp add: algebra_simps)
qed

lemma read_nat_zeros: "read_nat (replicate j CHR ''0'') = 0"
proof (induction j)
  case 0
  then show ?case by (simp add: read_nat_def)
next
  case (Suc j)
  have "replicate (Suc j) CHR ''0'' = replicate j CHR ''0'' @ [CHR ''0'']"
    by (simp add: replicate_append_same)
  then show ?case using Suc read_nat_snoc [of "replicate j CHR ''0''" "CHR ''0''"]
    by (simp add: digit_val_def)
qed

lemma zeros_digits: "list_all is_digit (replicate j CHR ''0'')"
  by (induction j) (simp_all add: is_digit_def)

lemma not_digit_chars:
  "\<not> is_digit CHR ''.''" "\<not> is_digit CHR ''e''" "\<not> is_digit CHR ''-''" "\<not> is_digit CHR ''+''"
  "is_digit CHR ''0''"
  by (simp_all add: is_digit_def)

lemma p_int_digits:
  assumes "ds \<noteq> []" and "list_all is_digit ds" and "hd ds \<noteq> CHR ''0''"
    and "takeWhile is_digit (ds @ r) = ds \<and> dropWhile is_digit (ds @ r) = r"
  shows "p_int (ds @ r) = Some (ds, r)"
proof -
  obtain c cs where ds: "ds = c # cs" using assms(1) by (cases ds) auto
  then have "is_digit c" "c \<noteq> CHR ''0''" using assms(2,3) by simp_all
  then show ?thesis using assms(4) unfolding ds by (simp add: p_int_def)
qed

lemma p_frac_digits:
  assumes "ds \<noteq> []" and "takeWhile is_digit (ds @ r) = ds \<and> dropWhile is_digit (ds @ r) = r"
  shows "p_frac (CHR ''.'' # ds @ r) = Some (ds, r)"
  using assms by (simp add: p_frac_def)

lemma p_frac_none: "number_end r \<Longrightarrow> p_frac r = Some ([], r)"
  by (cases r) (simp_all add: p_frac_def number_end_def)

lemma p_exp_none: "number_end r \<Longrightarrow> p_exp r = Some (0, r)"
  by (cases r) (simp_all add: p_exp_def number_end_def)

lemma p_exp_show:
  assumes "number_end r"
  shows "p_exp (CHR ''e'' # CHR ''+'' # show_nat j @ r) = Some (int j, r)"
    and "p_exp (CHR ''e'' # CHR ''-'' # show_nat j @ r) = Some (- int j, r)"
  using takeWhile_digits [OF show_nat_digits assms, of j] show_nat_nonempty [of j] read_show_nat [of j]
  by (simp_all add: p_exp_def p_exp_digits_def)

lemma p_unsigned_show_digits:
  assumes "0 < b" and "number_end r"
  shows "p_unsigned (show_digits (show_nat b) n @ r)
    = Some (if int (length (show_nat b)) \<le> n \<and> n \<le> 21
            then (b * 10 ^ nat (n - int (length (show_nat b))), 0)
            else (b, n - int (length (show_nat b))), r)"
proof -
  define s where "s = show_nat b"
  define k where "k = int (length s)"
  have dg: "list_all is_digit s" and ne: "s \<noteq> []" and rd: "read_nat s = b"
    and hz: "hd s \<noteq> CHR ''0''"
    using show_nat_digits [of b] show_nat_nonempty [of b] read_show_nat [of b]
      hd_show_nat_zero [of b] assms(1) by (simp_all add: s_def)
  have kpos: "0 < k" using ne by (simp add: k_def)
  consider (plain) "k \<le> n" "n \<le> 21"
    | (point) "\<not> (k \<le> n \<and> n \<le> 21)" "0 < n" "n \<le> 21"
    | (small) "\<not> (k \<le> n \<and> n \<le> 21)" "\<not> (0 < n \<and> n \<le> 21)" "- 6 < n" "n \<le> 0"
    | (expo) "\<not> (k \<le> n \<and> n \<le> 21)" "\<not> (0 < n \<and> n \<le> 21)" "\<not> (- 6 < n \<and> n \<le> 0)"
    by linarith
  then have "p_unsigned (show_digits s n @ r)
    = Some (if k \<le> n \<and> n \<le> 21 then (b * 10 ^ nat (n - k), 0) else (b, n - k), r)"
  proof cases
    case plain
    define ds where "ds = s @ replicate (nat (n - k)) CHR ''0''"
    have a: "list_all is_digit ds" "ds \<noteq> []" "hd ds \<noteq> CHR ''0''"
      using dg ne hz zeros_digits by (simp_all add: ds_def)
    have t: "takeWhile is_digit (ds @ r) = ds \<and> dropWhile is_digit (ds @ r) = r"
      using takeWhile_digits [OF a(1) assms(2)] .
    have i: "p_int (ds @ r) = Some (ds, r)" using p_int_digits [OF a(2) a(1) a(3) t] .
    have v: "read_nat ds = b * 10 ^ nat (n - k)"
      by (simp add: ds_def read_nat_append rd read_nat_zeros)
    have "show_digits s n = ds" using plain by (simp add: show_digits_def Let_def k_def ds_def)
    then show ?thesis
      using plain i v p_frac_none [OF assms(2)] p_exp_none [OF assms(2)]
      by (simp add: p_unsigned_def)
  next
    case point
    then have nk: "n < k" by linarith
    define ip where "ip = take (nat n) s"
    define fp where "fp = drop (nat n) s"
    have s: "s = ip @ fp" by (simp add: ip_def fp_def)
    have a: "list_all is_digit ip" "ip \<noteq> []" "hd ip \<noteq> CHR ''0''" "list_all is_digit fp" "fp \<noteq> []"
      and lf: "int (length fp) = k - n"
      using dg ne hz point(2) nk
      by (auto simp: ip_def fp_def k_def list_all_iff dest: in_set_takeD in_set_dropD)
    have t1: "takeWhile is_digit (ip @ CHR ''.'' # fp @ r) = ip
              \<and> dropWhile is_digit (ip @ CHR ''.'' # fp @ r) = CHR ''.'' # fp @ r"
      using takeWhile_digits_then [OF a(1) not_digit_chars(1)] .
    have i: "p_int (ip @ CHR ''.'' # fp @ r) = Some (ip, CHR ''.'' # fp @ r)"
      using p_int_digits [OF a(2) a(1) a(3) t1] .
    have f: "p_frac (CHR ''.'' # fp @ r) = Some (fp, r)"
      using p_frac_digits [OF a(5) takeWhile_digits [OF a(4) assms(2)]] .
    have "show_digits s n = ip @ CHR ''.'' # fp"
      using point by (simp add: show_digits_def Let_def k_def ip_def fp_def)
    then show ?thesis
      using point i f p_exp_none [OF assms(2)] rd s lf
      by (simp add: p_unsigned_def)
  next
    case small
    define fp where "fp = replicate (nat (- n)) CHR ''0'' @ s"
    have a: "list_all is_digit fp" "fp \<noteq> []" and lf: "int (length fp) = k - n"
      and v: "read_nat (CHR ''0'' # fp) = b"
      using dg ne zeros_digits small(4) read_nat_append [of "CHR ''0'' # replicate (nat (- n)) CHR ''0''" s]
        read_nat_zeros [of "Suc (nat (- n))"] rd
      by (simp_all add: fp_def k_def)
    have f: "p_frac (CHR ''.'' # fp @ r) = Some (fp, r)"
      using p_frac_digits [OF a(2) takeWhile_digits [OF a(1) assms(2)]] .
    have "show_digits s n = CHR ''0'' # CHR ''.'' # fp"
      using small kpos by (simp add: show_digits_def Let_def k_def [symmetric] fp_def)
    then show ?thesis
      using small f p_exp_none [OF assms(2)] v lf kpos
      by (simp add: p_unsigned_def p_int_def)
  next
    case expo
    define ex where "ex = CHR ''e'' # (if n - 1 < 0 then CHR ''-'' else CHR ''+'') # show_nat (nat (abs (n - 1)))"
    define j where "j = nat (abs (n - 1))"
    have e: "p_exp (ex @ r) = Some (n - 1, r)"
    proof (cases "n - 1 < 0")
      case True
      then have "- int j = n - 1" by (simp add: j_def)
      moreover have "ex = CHR ''e'' # CHR ''-'' # show_nat j" using True by (simp add: ex_def j_def)
      ultimately show ?thesis using p_exp_show(2) [OF assms(2), of j] by simp
    next
      case False
      then have "int j = n - 1" by (simp add: j_def)
      moreover have "ex = CHR ''e'' # CHR ''+'' # show_nat j" using False by (simp add: ex_def j_def)
      ultimately show ?thesis using p_exp_show(1) [OF assms(2), of j] by simp
    qed
    have nc: "(k \<le> n \<and> n \<le> 21) = False" using expo(1) by simp
    have sdx: "show_digits s n = (if k = 1 then s else hd s # CHR ''.'' # tl s) @ ex"
      by (simp only: show_digits_def Let_def k_def [symmetric] ex_def expo if_False)
    show ?thesis
    proof (cases "k = 1")
      case True
      have t1: "takeWhile is_digit (s @ ex @ r) = s \<and> dropWhile is_digit (s @ ex @ r) = ex @ r"
        using takeWhile_digits_then [OF dg not_digit_chars(2), of "tl ex @ r"] by (simp add: ex_def)
      have i: "p_int (s @ ex @ r) = Some (s, ex @ r)"
        using p_int_digits [OF ne dg hz t1] .
      have f: "p_frac (ex @ r) = Some ([], ex @ r)" by (simp add: p_frac_def ex_def)
      have "show_digits s n = s @ ex"
        using sdx True by simp
      then have "p_unsigned (show_digits s n @ r) = Some ((b, n - k), r)"
        using i f e rd True by (simp add: p_unsigned_def)
      then show ?thesis by (simp only: nc if_False)
    next
      case False
      obtain c cs where s: "s = c # cs" using ne by (cases s) auto
      have cs: "cs \<noteq> []" "list_all is_digit cs" "is_digit c" "c \<noteq> CHR ''0''" and lc: "int (length cs) = k - 1"
        using False dg hz kpos by (auto simp: s k_def)
      have i: "p_int (c # CHR ''.'' # cs @ ex @ r) = Some ([c], CHR ''.'' # cs @ ex @ r)"
        using cs(3,4) by (simp add: p_int_def not_digit_chars)
      have t2: "takeWhile is_digit (cs @ ex @ r) = cs \<and> dropWhile is_digit (cs @ ex @ r) = ex @ r"
        using takeWhile_digits_then [OF cs(2) not_digit_chars(2), of "tl ex @ r"] by (simp add: ex_def)
      have f: "p_frac (CHR ''.'' # cs @ ex @ r) = Some (cs, ex @ r)"
        using p_frac_digits [OF cs(1) t2] .
      have "show_digits s n = c # CHR ''.'' # cs @ ex"
        using sdx False by (simp add: s)
      then have "p_unsigned (show_digits s n @ r) = Some ((b, n - k), r)"
        using i f e rd lc by (simp add: p_unsigned_def s)
      then show ?thesis by (simp only: nc if_False)
    qed
  qed
  then show ?thesis by (simp add: s_def k_def)
qed

lemma strip_zeros_value:
  "0 < a \<Longrightarrow> strip_zeros a = (b, z) \<Longrightarrow> a = b * 10 ^ z \<and> 0 < b"
proof (induction a arbitrary: b z rule: strip_zeros.induct)
  case (1 a)
  show ?case
  proof (cases "a mod 10 \<noteq> 0")
    case True
    then show ?thesis using 1(2,3) by (subst (asm) strip_zeros.simps) simp
  next
    case False
    obtain b' z' where r: "strip_zeros (a div 10) = (b', z')" by (cases "strip_zeros (a div 10)")
    have p: "0 < a div 10" using False 1(2) by (simp add: div_greater_zero_iff) presburger
    have "a div 10 = b' * 10 ^ z' \<and> 0 < b'" using 1(1) [OF _ p r] False 1(2) by simp
    moreover have "b = b'" "z = z' + 1"
      using 1(2,3) False r by (subst (asm) strip_zeros.simps, simp)+
    moreover have "a = 10 * (a div 10)" using False by presburger
    ultimately show ?thesis by simp
  qed
qed

lemma strip_frac_id: "0 < d \<Longrightarrow> m mod 10 \<noteq> 0 \<Longrightarrow> strip_frac m d = (m, d)"
  by (subst strip_frac.simps) simp

lemma hd_show_nat_digit: "\<exists>c cs. show_nat n = c # cs \<and> is_digit c \<and> c \<noteq> CHR ''-''"
  using show_nat_digits [of n] show_nat_nonempty [of n]
  by (cases "show_nat n") (auto simp: is_digit_def)

lemma hd_show_digits:
  "\<exists>c cs. show_digits (show_nat b) n = c # cs \<and> is_digit c \<and> c \<noteq> CHR ''-''"
proof -
  obtain c cs where s: "show_nat b = c # cs" and d: "is_digit c" "c \<noteq> CHR ''-''"
    using hd_show_nat_digit [of b] by blast
  have z: "is_digit CHR ''0''" "CHR ''0'' \<noteq> CHR ''-''" by (simp_all add: is_digit_def)
  show ?thesis
    using d z unfolding s show_digits_def Let_def
    by (cases "nat n") (auto simp: take_Cons')
qed

lemma hd_show_abs: "\<exists>c cs. show_abs a = c # cs \<and> is_digit c \<and> c \<noteq> CHR ''-''"
proof (cases "a < 10 ^ 21")
  case True
  then show ?thesis using hd_show_nat_digit [of a] by (simp add: show_abs_def)
next
  case False
  obtain b z where "strip_zeros a = (b, z)" by (cases "strip_zeros a")
  then show ?thesis
    using False hd_show_digits [of b "int (length (show_nat b)) + int z"] by (simp add: show_abs_def)
qed

lemma p_unsigned_show_abs:
  assumes "number_end r"
  shows "\<exists>me. p_unsigned (show_abs a @ r) = Some (me, r)
           \<and> number_value neg me = JNum (if neg then - int a else int a)"
proof (cases "a < 10 ^ 21")
  case True
  show ?thesis
  proof (cases "a = 0")
    case True
    then show ?thesis
      using p_frac_none [OF assms] p_exp_none [OF assms]
      by (simp add: show_abs_def show_nat_zero p_unsigned_def p_int_def read_nat_def digit_val_def number_value_def)
  next
    case False
    have t: "takeWhile is_digit (show_nat a @ r) = show_nat a \<and> dropWhile is_digit (show_nat a @ r) = r"
      using takeWhile_digits [OF show_nat_digits assms] .
    have "p_int (show_nat a @ r) = Some (show_nat a, r)"
      using p_int_digits [OF show_nat_nonempty show_nat_digits _ t] hd_show_nat_zero [of a] False by simp
    then show ?thesis
      using \<open>a < 10 ^ 21\<close> False p_frac_none [OF assms] p_exp_none [OF assms] read_show_nat [of a]
      by (simp add: show_abs_def p_unsigned_def number_value_def)
  qed
next
  case False
  then have pos: "0 < a" by (cases "a = 0") simp_all
  obtain b z where sz: "strip_zeros a = (b, z)" by (cases "strip_zeros a")
  have v: "a = b * 10 ^ z" "0 < b" using strip_zeros_value [OF pos sz] by simp_all
  define k where "k = int (length (show_nat b))"
  have "p_unsigned (show_digits (show_nat b) (k + int z) @ r)
      = Some (if k \<le> k + int z \<and> k + int z \<le> 21 then (b * 10 ^ nat (k + int z - k), 0)
              else (b, k + int z - k), r)"
    using p_unsigned_show_digits [OF v(2) assms, of "k + int z"] by (simp add: k_def)
  then show ?thesis
    using False sz v by (auto simp: show_abs_def k_def number_value_def)
qed

lemma p_number_show_int:
  assumes "number_end r"
  shows "p_number (show_int i @ r) = Some (JNum i, r)"
proof (cases "i < 0")
  case True
  obtain me where "p_unsigned (show_abs (nat (- i)) @ r) = Some (me, r)"
    and "number_value True me = JNum (- int (nat (- i)))"
    using p_unsigned_show_abs [OF assms, of "nat (- i)" True] by auto
  then show ?thesis using True by (simp add: show_int_def p_number_def)
next
  case False
  obtain c cs where s: "show_abs (nat i) = c # cs" and c: "c \<noteq> CHR ''-''"
    using hd_show_abs [of "nat i"] by blast
  obtain me where "p_unsigned (show_abs (nat i) @ r) = Some (me, r)"
    and "number_value False me = JNum (int (nat i))"
    using p_unsigned_show_abs [OF assms, of "nat i" False] by auto
  then show ?thesis using False s c by (simp add: show_int_def p_number_def)
qed

lemma p_number_show_dec:
  assumes "number_end r" and "0 < d" and "m mod 10 \<noteq> 0"
  shows "p_number (show_dec m d @ r) = Some (JDec m d, r)"
proof -
  define b where "b = nat (abs m)"
  define k where "k = int (length (show_nat b))"
  have m0: "m \<noteq> 0" using assms(3) by auto
  then have bpos: "0 < b" by (simp add: b_def)
  have bm: "b mod 10 \<noteq> 0"
  proof
    assume "b mod 10 = 0"
    then have "10 dvd b" by presburger
    then have "10 dvd abs m" using b_def by (metis int_dvd_int_iff nat_0_le abs_ge_zero of_nat_numeral)
    then show False using assms(3) by presburger
  qed
  have u: "p_unsigned (show_digits (show_nat b) (k - int d) @ r) = Some ((b, - int d), r)"
    using p_unsigned_show_digits [OF bpos assms(1), of "k - int d"] assms(2) by (simp add: k_def)
  have nv: "number_value neg (b, - int d) = JDec ((if neg then - 1 else 1) * int b) d" for neg
    using bpos assms(2) strip_frac_id [OF assms(2) bm] by (simp add: number_value_def)
  obtain c cs where s: "show_digits (show_nat b) (k - int d) = c # cs" and c: "c \<noteq> CHR ''-''"
    using hd_show_digits [of b "k - int d"] by blast
  have ib: "int b = abs m" by (simp add: b_def)
  have sd: "show_dec m d = (if m < 0 then CHR ''-'' # show_digits (show_nat b) (k - int d)
                            else show_digits (show_nat b) (k - int d))"
    by (simp add: show_dec_def Let_def b_def k_def)
  show ?thesis
  proof (cases "m < 0")
    case True
    then show ?thesis unfolding sd using u nv [of True] ib by (simp add: p_number_def)
  next
    case False
    then have "p_number (show_digits (show_nat b) (k - int d) @ r)
        = map_option (\<lambda>(me, r). (number_value False me, r)) (p_unsigned (show_digits (show_nat b) (k - int d) @ r))"
      using s c by (simp add: p_number_def)
    then show ?thesis unfolding sd using False u nv [of False] ib by simp
  qed
qed

lemma hd_show_int: "\<exists>c cs. show_int i = c # cs \<and> (is_digit c \<or> c = CHR ''-'')"
  using hd_show_abs [of "nat i"] by (cases "i < 0") (auto simp: show_int_def)

lemma hd_show_dec: "\<exists>c cs. show_dec m d = c # cs \<and> (is_digit c \<or> c = CHR ''-'')"
  using hd_show_digits [of "nat (abs m)" "int (length (show_nat (nat (abs m)))) - int d"]
  by (cases "m < 0") (auto simp: show_dec_def Let_def)

lemma digit_start: "is_digit c \<or> c = CHR ''-'' \<Longrightarrow>
  value_start c \<and> c \<notin> {CHR ''n'', CHR ''t'', CHR ''f'', CHR 0x22, CHR ''['', CHR ''{''}"
  by (auto simp: is_digit_def value_start_def json_ws_def)

lemma stringify_start: "\<exists>c cs. JSON_stringify v = c # cs \<and> value_start c"
proof (cases v)
  case (JNum i)
  then show ?thesis using hd_show_int [of i] digit_start by auto
next
  case (JDec m d)
  then show ?thesis using hd_show_dec [of m d] digit_start by auto
qed (auto simp: value_start_def json_ws_def QuoteJSONString_def)

lemma skip_ws_start: "value_start c \<Longrightarrow> skip_ws (c # cs) = c # cs"
  by (simp add: skip_ws_def value_start_def)

lemma skip_ws_stringify: "skip_ws (JSON_stringify v @ r) = JSON_stringify v @ r"
  using stringify_start [of v] by (auto simp: skip_ws_start)

lemma join_Cons: "xs \<noteq> [] \<Longrightarrow> join sep (x # xs) = x @ sep @ join sep xs"
  by (cases xs) simp_all

lemma number_end_simps [simp]:
  "number_end (CHR '']'' # r)" "number_end (CHR '','' # r)" "number_end (CHR ''}'' # r)" "number_end []"
  by (simp_all add: number_end_def is_digit_def)

lemma p_elems_join:
  assumes "xs \<noteq> []" and "\<And>x. x \<in> set xs \<Longrightarrow> parses x" and "size_list size xs < f"
  shows "p_elems f (join '','' (map JSON_stringify xs) @ CHR '']'' # r) = Some (xs, r)"
  using assms
proof (induction xs arbitrary: f rule: list_nonempty_induct)
  case (single x)
  then obtain f' where f: "f = Suc f'" and s: "size x < f'"
    by (cases f) auto
  have "p_value f' (JSON_stringify x @ CHR '']'' # r) = Some (x, CHR '']'' # r)"
    using single(1) [of x] s by (simp add: parses_def)
  then show ?case by (simp add: f skip_ws_def json_ws_def)
next
  case (cons x xs)
  then obtain f' where f: "f = Suc f'" and s: "size x < f'" and t: "size_list size xs < f'"
    by (cases f) auto
  have a: "p_value f' (JSON_stringify x @ CHR '','' # join '','' (map JSON_stringify xs) @ CHR '']'' # r)
          = Some (x, CHR '','' # join '','' (map JSON_stringify xs) @ CHR '']'' # r)"
    using cons(3) [of x] s by (simp add: parses_def)
  obtain y ys where xs: "xs = y # ys" using cons(1) by (cases xs) auto
  have b: "skip_ws (join '','' (map JSON_stringify xs) @ CHR '']'' # r)
             = join '','' (map JSON_stringify xs) @ CHR '']'' # r"
    unfolding xs using skip_ws_stringify [of y] by (cases ys) simp_all
  have c: "p_elems f' (join '','' (map JSON_stringify xs) @ CHR '']'' # r) = Some (xs, r)"
    using cons(2) [of f'] cons(3) t by simp
  show ?case
    using cons(1) a b c
    by (simp add: f join_Cons skip_ws_def json_ws_def cons_fst_def)
qed

lemma stringify_obj:
  "JSON_stringify (JObj kvs) = CHR ''{'' # join '','' (map member_text kvs) @ ''}''"
proof -
  have "(\<lambda>(k, v). QuoteJSONString k @ '':'' @ JSON_stringify v) = member_text"
    by (simp add: member_text_def)
  then show ?thesis by (simp del: append.simps)
qed

lemma update_fresh: "k \<notin> fst ` set al \<Longrightarrow> AList.update k v al = al @ [(k, v)]"
  by (induction al) auto

lemma key_order_prefix: "key_order (xs @ ys) \<Longrightarrow> key_order xs"
proof (induction xs rule: key_order.induct)
  case (1 k k' ks)
  then show ?case by (simp split: if_splits)
qed simp_all

lemma key_order_before:
  "key_order (ks @ [k]) \<Longrightarrow> is_index k \<Longrightarrow> k' \<in> set ks \<Longrightarrow> is_index k' \<and> read_nat k' < read_nat k"
proof (induction ks arbitrary: k')
  case Nil
  then show ?case by simp
next
  case (Cons a ks)
  show ?case
  proof (cases ks)
    case Nil
    then show ?thesis using Cons.prems by simp
  next
    case (Cons b bs)
    have o: "key_order (ks @ [k])" using Cons.prems(1) Cons by simp
    have b: "is_index b \<and> read_nat b < read_nat k"
      using Cons.IH [OF o Cons.prems(2), of b] Cons by simp
    then have a: "is_index a \<and> read_nat a < read_nat k"
      using Cons.prems(1) Cons by simp
    show ?thesis
    proof (cases "k' = a")
      case True
      then show ?thesis using a by simp
    next
      case False
      then have "k' \<in> set ks" using Cons.prems(3) by simp
      then show ?thesis using Cons.IH [OF o Cons.prems(2)] by simp
    qed
  qed
qed

lemma insert_index_last:
  "(\<And>k'. k' \<in> fst ` set kvs \<Longrightarrow> is_index k' \<and> read_nat k' < read_nat k) \<Longrightarrow>
     insert_index k v kvs = kvs @ [(k, v)]"
  by (induction kvs) auto

lemma CreateDataProperty_last:
  assumes "k \<notin> fst ` set acc" and "key_order (map fst acc @ [k])"
  shows "CreateDataProperty k v acc = acc @ [(k, v)]"
proof (cases "is_index k")
  case True
  have n: "map_of acc k = None" using assms(1) by (simp add: map_of_eq_None_iff)
  have "insert_index k v acc = acc @ [(k, v)]"
  proof (rule insert_index_last)
    fix k' assume "k' \<in> fst ` set acc"
    then have "k' \<in> set (map fst acc)" by simp
    then show "is_index k' \<and> read_nat k' < read_nat k"
      using key_order_before [OF assms(2) True] by blast
  qed
  then show ?thesis using True n by (simp add: CreateDataProperty_def)
next
  case False
  then show ?thesis using update_fresh [OF assms(1)] by (simp add: CreateDataProperty_def)
qed

lemma CreateDataProperty_name: "\<not> is_index k \<Longrightarrow> CreateDataProperty k v kvs = AList.update k v kvs"
  by (simp add: CreateDataProperty_def)

lemma not_index_names:
  "\<not> is_index ''lastLogin''" "\<not> is_index ''lastActivity''" "\<not> is_index ''warningShown''"
  by (simp_all add: is_index_def is_digit_def)

lemma is_index_letter [simp]: "c \<notin> set ''0123456789'' \<Longrightarrow> \<not> is_index (c # cs)"
  by (simp add: is_index_def is_digit_def)

lemma key_order_name: "key_order ks \<Longrightarrow> \<not> is_index k \<Longrightarrow> key_order (ks @ [k])"
  by (induction ks rule: key_order.induct) simp_all

lemma key_order_update:
  assumes "key_order (map fst al)" and "\<not> is_index k"
  shows "key_order (map fst (AList.update k v al))"
  using assms key_order_name by (simp add: update_keys)

lemma p_member_key:
  "p_string (concat (map quote_char k) @ CHR 0x22 # CHR '':'' # t) = Some (k, CHR '':'' # t)"
  by (rule p_string_quoted)

lemma p_member_value:
  assumes "parses v" and "size v < f" and "number_end rest"
  shows "p_value f (skip_ws (JSON_stringify v @ rest)) = Some (v, rest)"
  using assms by (simp add: skip_ws_stringify parses_def)

lemma p_members_join:
  assumes "kvs \<noteq> []" and "\<And>k v. (k, v) \<in> set kvs \<Longrightarrow> parses v"
    and "size_list (size_prod (\<lambda>x. 0) size) kvs < f" and "distinct (map fst (acc @ kvs))"
    and "key_order (map fst (acc @ kvs))"
  shows "p_members f acc (join '','' (map member_text kvs) @ CHR ''}'' # r) = Some (acc @ kvs, r)"
  using assms
proof (induction kvs arbitrary: f acc rule: list_nonempty_induct)
  case (single kv)
  obtain k v where kv: "kv = (k, v)" by (cases kv)
  from single kv obtain f' where f: "f = Suc f'" and s: "size v < f'"
    by (cases f) auto
  have u: "CreateDataProperty k v acc = acc @ [(k, v)]"
    using single(3,4) kv by (intro CreateDataProperty_last) auto
  have p: "parses v" using single(1) [of k v] kv by simp
  show ?case
    using p_member_value [OF p s, of "CHR ''}'' # r"] p_member_key [of k "JSON_stringify v @ CHR ''}'' # r"] u
    by (simp add: f kv member_text_def QuoteJSONString_def skip_ws_def json_ws_def)
next
  case (cons kv kvs)
  obtain k v where kv: "kv = (k, v)" by (cases kv)
  from cons kv obtain f' where f: "f = Suc f'" and s: "size v < f'"
    and t: "size_list (size_prod (\<lambda>x. 0) size) kvs < f'"
    by (cases f) auto
  have ko: "key_order (map fst acc @ [k])"
    using key_order_prefix [of "map fst acc @ [k]" "map fst kvs"] cons(6) kv by simp
  have u: "CreateDataProperty k v acc = acc @ [(k, v)]"
    using cons(5) kv ko by (intro CreateDataProperty_last) auto
  have p: "parses v" using cons(3) [of k v] kv by simp
  obtain k' v' kvs' where kvs: "kvs = (k', v') # kvs'" using cons(1) by (cases kvs) auto
  have b: "skip_ws (join '','' (map member_text kvs) @ CHR ''}'' # r)
             = join '','' (map member_text kvs) @ CHR ''}'' # r"
    unfolding kvs by (cases kvs') (simp_all add: member_text_def QuoteJSONString_def skip_ws_def json_ws_def)
  have c: "p_members f' (acc @ [(k, v)]) (join '','' (map member_text kvs) @ CHR ''}'' # r)
             = Some ((acc @ [(k, v)]) @ kvs, r)"
  proof -
    have "\<And>k v. (k, v) \<in> set kvs \<Longrightarrow> parses v" using cons(3) by (meson list.set_intros(2))
    moreover have "distinct (map fst ((acc @ [(k, v)]) @ kvs))" using cons(5) kv by simp
    moreover have "key_order (map fst ((acc @ [(k, v)]) @ kvs))" using cons(6) kv by simp
    ultimately show ?thesis using cons(2) [of f' "acc @ [(k, v)]"] t by blast
  qed
  show ?case
    using p_member_value [OF p s, of "CHR '','' # join '','' (map member_text kvs) @ CHR ''}'' # r"]
      p_member_key [of k "JSON_stringify v @ CHR '','' # join '','' (map member_text kvs) @ CHR ''}'' # r"]
      u b c cons(1)
    by (simp add: f kv join_Cons member_text_def [symmetric])
       (simp add: member_text_def QuoteJSONString_def skip_ws_def json_ws_def)
qed

lemma parses_all: "wf_json v \<Longrightarrow> parses v"
proof (induction v)
  case JNull
  show ?case unfolding parses_def
  proof (intro allI impI)
    fix f :: nat and r
    assume "size JNull < f"
    then obtain f' where "f = Suc f'" by (cases f) auto
    then show "p_value f (JSON_stringify JNull @ r) = Some (JNull, r)"
      by (simp add: p_literal_def)
  qed
next
  case (JBool b)
  show ?case unfolding parses_def
  proof (intro allI impI)
    fix f :: nat and r
    assume "size (JBool b) < f"
    then obtain f' where "f = Suc f'" by (cases f) auto
    then show "p_value f (JSON_stringify (JBool b) @ r) = Some (JBool b, r)"
      by (simp add: p_literal_def)
  qed
next
  case (JNum i)
  show ?case unfolding parses_def
  proof (intro allI impI)
    fix f :: nat and r
    assume "size (JNum i) < f" and e: "number_end r"
    then obtain f' where f: "f = Suc f'" by (cases f) auto
    obtain c cs where s: "show_int i = c # cs" and d: "is_digit c \<or> c = CHR ''-''"
      using hd_show_int [of i] by blast
    show "p_value f (JSON_stringify (JNum i) @ r) = Some (JNum i, r)"
      using digit_start [OF d] p_number_show_int [OF e, of i] s by (simp add: f)
  qed
next
  case (JDec m d)
  then have w: "0 < d" "m mod 10 \<noteq> 0" by simp_all
  show ?case unfolding parses_def
  proof (intro allI impI)
    fix f :: nat and r
    assume "size (JDec m d) < f" and e: "number_end r"
    then obtain f' where f: "f = Suc f'" by (cases f) auto
    obtain c cs where s: "show_dec m d = c # cs" and d: "is_digit c \<or> c = CHR ''-''"
      using hd_show_dec [of m d] by blast
    show "p_value f (JSON_stringify (JDec m d) @ r) = Some (JDec m d, r)"
      using digit_start [OF d] p_number_show_dec [OF e w] s by (simp add: f)
  qed
next
  case (JStr s)
  show ?case unfolding parses_def
  proof (intro allI impI)
    fix f :: nat and r
    assume "size (JStr s) < f"
    then obtain f' where "f = Suc f'" by (cases f) auto
    then show "p_value f (JSON_stringify (JStr s) @ r) = Some (JStr s, r)"
      by (simp add: QuoteJSONString_def p_string_quoted)
  qed
next
  case (JArr xs)
  then have ih: "\<And>x. x \<in> set xs \<Longrightarrow> parses x" by simp
  show ?case unfolding parses_def
  proof (intro allI impI)
    fix f :: nat and r
    assume "size (JArr xs) < f"
    then obtain f' where f: "f = Suc f'" and s: "size_list size xs < f'" by (cases f) auto
    show "p_value f (JSON_stringify (JArr xs) @ r) = Some (JArr xs, r)"
    proof (cases xs)
      case Nil
      then show ?thesis by (simp add: f skip_ws_def json_ws_def)
    next
      case (Cons y ys)
      then have ne: "xs \<noteq> []" by simp
      obtain c cs where st: "join '','' (map JSON_stringify xs) = c # cs" and vs: "value_start c"
        using stringify_start [of y] Cons by (cases ys) auto
      show ?thesis
        using p_elems_join [OF ne ih s, where r = r] st vs skip_ws_start [OF vs]
        by (simp add: f value_start_def)
    qed
  qed
next
  case (JObj kvs)
  then have ih: "\<And>k v. (k, v) \<in> set kvs \<Longrightarrow> parses v"
    by (fastforce simp: snds.simps)
  have d: "distinct (map fst ([] @ kvs))" using JObj(2) by simp
  have o: "key_order (map fst ([] @ kvs))" using JObj(2) by simp
  show ?case unfolding parses_def
  proof (intro allI impI)
    fix f :: nat and r
    assume "size (JObj kvs) < f"
    then obtain f' where f: "f = Suc f'" and s: "size_list (size_prod (\<lambda>x. 0) size) kvs < f'"
      by (cases f) auto
    show "p_value f (JSON_stringify (JObj kvs) @ r) = Some (JObj kvs, r)"
    proof (cases kvs)
      case Nil
      then show ?thesis by (simp add: f skip_ws_def json_ws_def)
    next
      case (Cons kv kvs')
      then have ne: "kvs \<noteq> []" by simp
      obtain cs where st: "join '','' (map member_text kvs) = CHR 0x22 # cs"
        using Cons by (cases kv; cases kvs') (auto simp: member_text_def QuoteJSONString_def)
      have pm: "p_members f' [] (join '','' (map member_text kvs) @ CHR ''}'' # r) = Some ([] @ kvs, r)"
        by (rule p_members_join [OF ne _ s d o]) (rule ih)
      show ?thesis
        using pm st
        by (simp add: f stringify_obj skip_ws_def json_ws_def del: JSON_stringify.simps)
    qed
  qed
qed

lemma size_list_join:
  assumes "\<And>x. x \<in> set xs \<Longrightarrow> m x \<le> length (g x)"
  shows "size_list m xs \<le> length (join '','' (map g xs)) + 1"
  using assms
proof (induction xs)
  case Nil
  then show ?case by simp
next
  case (Cons x xs)
  then have "m x \<le> length (g x)" and "size_list m xs \<le> length (join '','' (map g xs)) + 1"
    by simp_all
  then show ?case by (cases xs) simp_all
qed

lemma size_le_length: "size v \<le> length (JSON_stringify v)"
proof (induction v)
  case (JArr xs)
  then show ?case using size_list_join [of xs size JSON_stringify] by simp
next
  case (JObj kvs)
  have "size_prod (\<lambda>x. 0) size kv \<le> length (member_text kv)" if "kv \<in> set kvs" for kv
  proof -
    obtain k v where kv: "kv = (k, v)" by (cases kv)
    then have "size v \<le> length (JSON_stringify v)"
      using JObj [of kv v] that by (simp add: snds.simps)
    then show ?thesis by (simp add: kv member_text_def QuoteJSONString_def)
  qed
  then have "size_list (size_prod (\<lambda>x. 0) size) kvs \<le> length (join '','' (map member_text kvs)) + 1"
    by (rule size_list_join)
  then show ?case by (simp add: stringify_obj del: JSON_stringify.simps)
qed simp_all

lemma JSON_roundtrip: "wf_json v \<Longrightarrow> JSON_parse (JSON_stringify v) = Inr v"
proof -
  assume "wf_json v"
  then have "parses v" by (rule parses_all)
  then have "size v < Suc (length (JSON_stringify v)) \<longrightarrow> number_end [] \<longrightarrow>
     p_value (Suc (length (JSON_stringify v))) (JSON_stringify v @ []) = Some (v, [])"
    unfolding parses_def by blast
  moreover have "size v < Suc (length (JSON_stringify v))"
    using size_le_length [of v] by simp
  ultimately have "p_value (Suc (length (JSON_stringify v))) (JSON_stringify v) = Some (v, [])"
    by (simp del: p_value.simps)
  then show ?thesis
    using skip_ws_stringify [of v "[]"] by (simp add: JSON_parse_def skip_ws_def del: p_value.simps)
qed

section \<open>atob decodes what btoa encodes\<close>

lemma of_char_b64_char:
  assumes "n < 64"
  shows "(of_char (b64_char n) :: nat) =
    (if n < 26 then 65 + n else if n < 52 then 71 + n else if n < 62 then n - 4
     else if n = 62 then 43 else 47)"
  using assms by (simp add: b64_char_def)

lemma b64_val_char: "n < 64 \<Longrightarrow> b64_val (b64_char n) = Some n"
proof -
  assume n: "n < 64"
  consider "n < 26" | "26 \<le> n" "n < 52" | "52 \<le> n" "n < 62" | "n = 62" | "n = 63"
    using n by linarith
  then show ?thesis
  proof cases
    case 4
    then show ?thesis by (simp add: b64_val_def b64_char_def)
  next
    case 5
    then show ?thesis by (simp add: b64_val_def b64_char_def)
  qed (use of_char_b64_char [OF n] in \<open>auto simp: b64_val_def Let_def\<close>)
qed

lemma b64_char_plain:
  assumes "n < 64"
  shows "\<not> ascii_ws (b64_char n)" and "b64_char n \<noteq> CHR ''=''" and "b64_char n \<noteq> CHR ''.''"
proof -
  have r: "(of_char (b64_char n) :: nat) \<notin> {9, 10, 12, 13, 32, 61, 46}"
    unfolding of_char_b64_char [OF assms] by auto
  have "(of_char c :: nat) \<in> {9, 10, 12, 13, 32, 61, 46}"
    if "ascii_ws c \<or> c = CHR ''='' \<or> c = CHR ''.''" for c
    using that by (auto simp: ascii_ws_def)
  with r show "\<not> ascii_ws (b64_char n)" and "b64_char n \<noteq> CHR ''=''" and "b64_char n \<noteq> CHR ''.''"
    by blast+
qed

lemma unpack_hi:
  fixes a b :: nat
  assumes "b < 256"
  shows "a div 4 * 4 + (a mod 4 * 16 + b div 16) div 16 = a"
proof -
  have "b div 16 < 16" using assms by (simp add: less_mult_imp_div_less)
  then have "(a mod 4 * 16 + b div 16) div 16 = a mod 4" by simp
  then show ?thesis by simp
qed

lemma unpack_mid:
  fixes a b c :: nat
  assumes "b < 256" "c < 256"
  shows "(a mod 4 * 16 + b div 16) mod 16 * 16 + (b mod 16 * 4 + c div 64) div 4 = b"
proof -
  have "b div 16 < 16" and "c div 64 < 4"
    using assms by (simp_all add: less_mult_imp_div_less)
  then have "(a mod 4 * 16 + b div 16) mod 16 = b div 16"
    and "(b mod 16 * 4 + c div 64) div 4 = b mod 16"
    by simp_all
  then show ?thesis by simp
qed

lemma unpack_lo:
  fixes b c :: nat
  assumes "c < 256"
  shows "(b mod 16 * 4 + c div 64) mod 4 * 64 + c mod 64 = c"
proof -
  have "c div 64 < 4" using assms by (simp add: less_mult_imp_div_less)
  then have "(b mod 16 * 4 + c div 64) mod 4 = c div 64" by simp
  then show ?thesis by simp
qed

lemma sextet_bounds:
  fixes a b c :: nat
  assumes "a < 256" "b < 256" "c < 256"
  shows "a div 4 < 64" "a mod 4 * 16 + b div 16 < 64" "b mod 16 * 4 + c div 64 < 64" "c mod 64 < 64"
    "a mod 4 * 16 < 64" "b mod 16 * 4 < 64"
proof -
  have x: "b div 16 < 16" and y: "c div 64 < 4"
    using assms by (simp_all add: less_mult_imp_div_less)
  have m: "a mod 4 < 4" "b mod 16 < 16" by simp_all
  show "a div 4 < 64" using assms by (simp add: less_mult_imp_div_less)
  show "a mod 4 * 16 + b div 16 < 64" using x m by linarith
  show "b mod 16 * 4 + c div 64 < 64" using y m by linarith
  show "c mod 64 < 64" by simp
  show "a mod 4 * 16 < 64" using m by linarith
  show "b mod 16 * 4 < 64" using m by linarith
qed


lemma sextets_lt: "x \<in> set (sextets s) \<Longrightarrow> x < 64"
proof (induction s arbitrary: x rule: sextets.induct)
  case 1
  then show ?case by simp
next
  case (2 a)
  from 2 sextet_bounds [OF of_char_lt [of a] of_char_lt [of a] of_char_lt [of a]]
  show ?case by auto
next
  case (3 a b)
  from 3 sextet_bounds [OF of_char_lt [of a] of_char_lt [of b] of_char_lt [of b]]
  show ?case by auto
next
  case (4 a b c rest)
  from 4 sextet_bounds [OF of_char_lt [of a] of_char_lt [of b] of_char_lt [of c]]
  show ?case by auto
qed

lemma length_sextets: "length (sextets s) = (4 * length s + 2) div 3"
  by (induction s rule: sextets.induct) simp_all

lemma octets_sextets: "octets (sextets s) = s"
proof (induction s rule: sextets.induct)
  case 1
  then show ?case by simp
next
  case (2 a)
  show ?case
    using unpack_hi [of 0 "of_char a"] by simp
next
  case (3 a b)
  show ?case
    using unpack_hi [OF of_char_lt [of b], of "of_char a"]
      unpack_mid [OF of_char_lt [of b], of 0 "of_char a"]
    by simp
next
  case (4 a b c rest)
  show ?case
    using unpack_hi [OF of_char_lt [of b], of "of_char a"]
      unpack_mid [OF of_char_lt [of b] of_char_lt [of c], of "of_char a"]
      unpack_lo [OF of_char_lt [of c], of "of_char b"] 4
    by simp
qed

lemma those_map_inverse:
  "(\<And>x. x \<in> set xs \<Longrightarrow> f (g x) = Some x) \<Longrightarrow> those (map f (map g xs)) = Some xs"
  by (induction xs) auto

lemma b64_text_plain:
  assumes "c \<in> set (b64_text s)"
  shows "\<not> ascii_ws c" and "c \<noteq> CHR ''=''" and "c \<noteq> CHR ''.''"
proof -
  obtain n where "n < 64" and "c = b64_char n"
    using assms sextets_lt by (auto simp: b64_text_def)
  then show "\<not> ascii_ws c" and "c \<noteq> CHR ''=''" and "c \<noteq> CHR ''.''"
    using b64_char_plain [of n] by simp_all
qed

lemma length_b64_text: "length (b64_text s) = (4 * length s + 2) div 3"
  by (simp add: b64_text_def length_sextets)

lemma btoa_chars: "c \<in> set (btoa s) \<Longrightarrow> c \<in> set (b64_text s) \<or> c = CHR ''=''"
  by (auto simp: btoa_def split: if_splits)

lemma btoa_no_dot: "CHR ''.'' \<notin> set (btoa s)"
  using btoa_chars [of "CHR ''.''" s] b64_text_plain(3) [of "CHR ''.''" s] by auto

lemma filter_ws_btoa: "filter (\<lambda>c. \<not> ascii_ws c) (btoa s) = btoa s"
proof -
  have "\<not> ascii_ws c" if "c \<in> set (btoa s)" for c
    using btoa_chars [OF that] b64_text_plain(1) [of c s] by (auto simp: ascii_ws_def)
  then show ?thesis by (simp add: filter_id_conv)
qed

lemma last_b64_text: "b64_text s \<noteq> [] \<Longrightarrow> last (b64_text s) \<noteq> CHR ''=''"
  using b64_text_plain(2) [of "last (b64_text s)" s] by auto

lemma pad_lengths:
  fixes n :: nat
  shows "n mod 3 = 1 \<Longrightarrow> ((4 * n + 2) div 3 + 2) mod 4 = 0"
    and "n mod 3 = 2 \<Longrightarrow> ((4 * n + 2) div 3 + 1) mod 4 = 0"
    and "(4 * n + 2) div 3 mod 4 \<noteq> 1"
  by presburger+

lemma strip_padding_btoa: "strip_padding (btoa s) = b64_text s"
proof -
  consider "length s mod 3 = 0" | "length s mod 3 = 1" | "length s mod 3 = 2"
    by linarith
  then show ?thesis
  proof cases
    case 1
    then have e: "btoa s = b64_text s" by (simp add: btoa_def)
    show ?thesis
    proof (cases "b64_text s = []")
      case True
      then show ?thesis unfolding e by (simp add: strip_padding_def)
    next
      case False
      then show ?thesis unfolding e using last_b64_text [of s] by (simp add: strip_padding_def)
    qed
  next
    case 2
    then have e: "btoa s = b64_text s @ ''==''"
      by (simp add: btoa_def)
    have "length (b64_text s @ ''=='') mod 4 = 0"
      using pad_lengths(1) [OF 2] by (simp add: length_b64_text)
    then show ?thesis unfolding e
      by (simp add: strip_padding_def butlast_append)
  next
    case 3
    then have e: "btoa s = b64_text s @ ''=''"
      by (simp add: btoa_def)
    have l: "length (b64_text s @ ''='') mod 4 = 0"
      using pad_lengths(2) [OF 3] by (simp add: length_b64_text)
    have ne: "b64_text s \<noteq> []"
      using 3 length_b64_text [of s] by (cases s) auto
    show ?thesis unfolding e using l ne last_b64_text [of s]
      by (simp add: strip_padding_def butlast_append)
  qed
qed

lemma atob_btoa: "atob (btoa s) = Inr s"
proof -
  have "length (b64_text s) mod 4 \<noteq> 1"
    unfolding length_b64_text by (rule pad_lengths(3))
  moreover have "those (map b64_val (b64_text s)) = Some (sextets s)"
    unfolding b64_text_def by (rule those_map_inverse) (simp add: b64_val_char sextets_lt)
  ultimately show ?thesis
    by (simp add: atob_def filter_ws_btoa strip_padding_btoa octets_sextets)
qed

section \<open>Evaluation on concrete inputs\<close>

lemmas eval_json = JSON_parse_def skip_ws_def json_ws_def p_number_def p_unsigned_def
  p_int_def p_frac_def p_exp_def p_exp_digits_def number_value_def strip_frac.simps show_abs_def
  CreateDataProperty_def is_index_def
  p_literal_def cons_fst_def is_digit_def read_nat_def digit_val_def unescape_def hex4_def
  hex_val_def QuoteJSONString_def quote_char_def show_int_def show_nat.simps digit_char_def

lemmas eval_storage = StorageUtil_set_def StorageUtil_get_def get_try_def getItem_def setItem_def
  getSize_def clearOldData_def old_item_def StorageUtil_remove_def removeItem_def Let_def
  truthy_opt_def ToNumber_opt_def

lemmas eval_b64 = btoa_def b64_text_def b64_char_def b64_val_def atob_def
  strip_padding_def ascii_ws_def char_of_def bit_Suc_0_iff

lemmas eval_auth = authenticateAdmin_def generateToken_def object_of_def StorageUtil_set'_def
  StorageUtil_remove'_def initSession_def startSessionChecker_def clearSession_def TIMEOUT_def
  WARNING_TIME_def AUTH_TOKEN_def USER_DATA_def ADMIN_SESSION_def REMEMBER_ME_def USERS_def
  isAuthenticated_def getCurrentUser_def verifyToken_def decodeToken_def decodeToken_try_def
  logout_def updateActivity_def showSessionWarning_def sessionCheck_def

lemmas eval_regex = regex_test_def emailRegex_def domain_label_def local_chars_def alnum_def
  phoneRegex_def trim_def js_space_def validateEmail_def validatePhone_def

lemmas eval_validation = validateForm_def rule_valid_def rule_message_def getErrorMessage_def
  required_def minLength_def maxLength_def numberRange_def positiveNumber_def opt_num_def
  show_opt_def ToNumber_opt_def StringToNumber_def StrUnsignedDecimalLiteral_def dec_value_def
  read_radix_def radix_val_def p_exp_def p_exp_digits_def

text \<open>
  The parser and the printer on numbers with a fraction or an exponent, \<open>ToNumber\<close> on
  strings, and the place a new property takes in an object.
\<close>

lemma parse_demo_numbers:
  "JSON_parse ''[1.5e1, 0.25, -2E-1, 1e21]''
     = Inr (JArr [JNum 15, JDec 25 2, JDec (- 2) 1, JNum 1000000000000000000000])"
  by (simp add: eval_json)
lemma stringify_demo_numbers:
  "JSON_stringify (JArr [JNum 1000000000000000000000, JDec 25 2, JDec (- 15) 1, JDec 123 9])
     = ''[1e+21,0.25,-1.5,1.23e-7]''"
  by (simp add: eval_json show_dec_def show_digits_def strip_zeros.simps)
lemma StringToNumber_demo:
  "StringToNumber ''1e2'' = Num 100 \<and> StringToNumber '' 1.5 '' = Num (3 / 2) \<and>
   StringToNumber ''0x1F'' = Num 31 \<and> StringToNumber ''-Infinity'' = Inf False \<and>
   StringToNumber ''12px'' = NaN \<and> StringToNumber '''' = Num 0"
  by (simp add: eval_validation eval_regex eval_json js_space_def)
lemma CreateDataProperty_demo:
  "CreateDataProperty ''1'' JNull [(''2'', JNull), (''a'', JNull)] = [(''1'', JNull), (''2'', JNull), (''a'', JNull)] \<and>
   CreateDataProperty ''10'' JNull [(''2'', JNull), (''a'', JNull)] = [(''2'', JNull), (''10'', JNull), (''a'', JNull)] \<and>
   CreateDataProperty ''01'' JNull [(''2'', JNull), (''a'', JNull)] = [(''2'', JNull), (''a'', JNull), (''01'', JNull)] \<and>
   CreateDataProperty ''a'' (JBool True) [(''2'', JNull), (''a'', JNull)] = [(''2'', JNull), (''a'', JBool True)]"
  by (simp add: eval_json)
section \<open>Lemmas on the store\<close>

lemma getItem_setItem:
  "setItem ls key text = Inr ls' \<Longrightarrow> getItem ls' k = (if k = key then Some text else getItem ls k)"
  by (auto simp: setItem_def getItem_def Let_def update_conv' split: if_splits)

lemma StorageUtil_set_True:
  assumes "StorageUtil_set now ls key v = (True, ls')"
  shows "getItem ls' key = Some (JSON_stringify v)"
proof (cases "setItem ls key (JSON_stringify v)")
  case (Inr l)
  with assms show ?thesis by (simp add: StorageUtil_set_def getItem_setItem)
next
  case (Inl e)
  with assms show ?thesis
    by (auto simp: StorageUtil_set_def Let_def getItem_setItem split: if_splits sum.splits)
qed

lemma getItem_removeItem:
  "getItem (removeItem ls key) k = (if k = key then None else getItem ls k)"
  by (simp add: getItem_def removeItem_def delete_conv')

lemma wf_store_removeItem: "wf_store ls \<Longrightarrow> wf_store (removeItem ls key)"
  by (simp add: wf_store_def removeItem_def distinct_delete)

lemma wf_store_setItem: "wf_store ls \<Longrightarrow> setItem ls key text = Inr ls' \<Longrightarrow> wf_store ls'"
  by (auto simp: wf_store_def setItem_def Let_def distinct_update split: if_splits)

lemma getItem_fold_remove:
  "getItem (fold (\<lambda>key st. snd (StorageUtil_remove st key)) ks ls) k
     = (if k \<in> set ks then None else getItem ls k)"
  by (induction ks arbitrary: ls) (auto simp: StorageUtil_remove_def getItem_removeItem)

lemma wf_store_fold_remove:
  "wf_store ls \<Longrightarrow> wf_store (fold (\<lambda>key st. snd (StorageUtil_remove st key)) ks ls)"
  by (induction ks arbitrary: ls) (auto simp: StorageUtil_remove_def wf_store_removeItem)

lemma wf_store_clearOldData: "wf_store ls \<Longrightarrow> wf_store (clearOldData now ls)"
  by (simp add: clearOldData_def Let_def wf_store_fold_remove)

lemma getItem_clearOldData:
  assumes "wf_store ls" and "getItem ls k = Some text"
    and "\<not> old_item (now - 30 * 24 * 60 * 60 * 1000) text"
  shows "getItem (clearOldData now ls) k = Some text"
proof -
  have "(k, t) \<in> set (items ls) \<Longrightarrow> t = text" for t
    using assms(1,2) by (simp add: wf_store_def getItem_def)
  then have "k \<notin> set (map fst (filter (\<lambda>(key, text). old_item (now - 30 * 24 * 60 * 60 * 1000) text) (items ls)))"
    using assms(3) by auto
  then show ?thesis
    using assms(2) by (simp add: clearOldData_def Let_def getItem_fold_remove)
qed

lemma StorageUtil_set_cases:
  obtains (first) ls' where "setItem ls key (JSON_stringify v) = Inr ls'"
      and "StorageUtil_set now ls key v = (True, ls')"
    | (retry) ls' where "setItem (clearOldData now ls) key (JSON_stringify v) = Inr ls'"
      and "StorageUtil_set now ls key v = (True, ls')"
    | (failed) "StorageUtil_set now ls key v = (False, clearOldData now ls)"
    | (other) "StorageUtil_set now ls key v = (False, ls)"
proof (cases "setItem ls key (JSON_stringify v)")
  case (Inr ls')
  then show ?thesis using first by (simp add: StorageUtil_set_def)
next
  case (Inl e)
  show ?thesis
  proof (cases "e = QuotaExceededError")
    case True
    show ?thesis
    proof (cases "setItem (clearOldData now ls) key (JSON_stringify v)")
      case (Inr ls')
      then show ?thesis using retry Inl True by (simp add: StorageUtil_set_def Let_def)
    next
      case (Inl e')
      then show ?thesis using failed \<open>setItem ls key (JSON_stringify v) = Inl e\<close> True
        by (simp add: StorageUtil_set_def Let_def)
    qed
  next
    case False
    then show ?thesis using other Inl by (simp add: StorageUtil_set_def)
  qed
qed

lemma wf_store_set:
  assumes "wf_store ls"
  shows "wf_store (snd (StorageUtil_set now ls key v))"
proof (cases rule: StorageUtil_set_cases [of ls key v now])
  case (first ls')
  then show ?thesis using wf_store_setItem [OF assms] by simp
next
  case (retry ls')
  then show ?thesis using wf_store_setItem [OF wf_store_clearOldData [OF assms]] by simp
next
  case failed
  then show ?thesis using wf_store_clearOldData [OF assms] by simp
next
  case other
  then show ?thesis using assms by simp
qed

lemma getItem_set_other:
  assumes "wf_store ls" and "getItem ls k = Some text" and "k \<noteq> key"
    and "\<not> old_item (now - 30 * 24 * 60 * 60 * 1000) text"
  shows "getItem (snd (StorageUtil_set now ls key v)) k = Some text"
proof (cases rule: StorageUtil_set_cases [of ls key v now])
  case (first ls')
  then show ?thesis using getItem_setItem [of ls key _ ls' k] assms(2,3) by simp
next
  case (retry ls')
  then show ?thesis
    using getItem_setItem [of "clearOldData now ls" key _ ls' k] assms(3)
      getItem_clearOldData [OF assms(1,2,4)] by simp
next
  case failed
  then show ?thesis using getItem_clearOldData [OF assms(1,2,4)] by simp
next
  case other
  then show ?thesis using assms(2) by simp
qed

lemma not_old_without_timestamp:
  assumes "wf_json v" and "get_prop v ''timestamp'' = None"
  shows "\<not> old_item t (JSON_stringify v)"
  using assms by (simp add: old_item_def JSON_roundtrip truthy_opt_def)

lemma get_stored:
  assumes "wf_json v" and "getItem ls key = Some (JSON_stringify v)"
  shows "StorageUtil_get ls key d = v"
  using assms by (simp add: StorageUtil_get_def get_try_def JSON_roundtrip)

lemma generateToken_nonempty: "generateToken now payload expiry \<noteq> []"
  by (simp add: generateToken_def Let_def)

lemma authenticateAdmin_unfold:
  "authenticateAdmin now b ''admin'' ''admin12345'' =
     (\<lparr>res_success = True, res_user = Some adminUser, res_token = Some (adminToken now),
       res_message = ''Admin login successful''\<rparr>,
      initSession now
        (StorageUtil_set' now USER_DATA adminUser
          (StorageUtil_set' now AUTH_TOKEN (JStr (adminToken now)) b)))"
  by (simp add: authenticateAdmin_def Let_def adminUser_def adminToken_def object_of_def)

section \<open>Lemmas on tokens\<close>

lemma split_no_sep: "sep \<notin> set a \<Longrightarrow> split sep a = [a]"
  by (induction a) auto

lemma split_append: "sep \<notin> set a \<Longrightarrow> split sep (a @ sep # rest) = a # split sep rest"
  by (induction a) auto

lemma update_member:
  "(k', v') \<in> set (AList.update k v al) \<Longrightarrow> (k', v') = (k, v) \<or> (k', v') \<in> set al"
  by (induction al) (auto split: if_splits)

lemma wf_update:
  assumes "wf_json (JObj al)" and "wf_json v" and "\<not> is_index k"
  shows "wf_json (JObj (AList.update k v al))"
proof -
  have "wf_json v'" if "(k', v') \<in> set (AList.update k v al)" for k' v'
    using update_member [OF that] assms by auto
  then show ?thesis using assms(1) key_order_update [OF _ assms(3), of al v]
    by (auto simp: distinct_update)
qed

lemma split_token:
  "split (CHR ''.'') (btoa h @ ''.'' @ btoa p @ ''.'' @ btoa g) = [btoa h, btoa p, btoa g]"
  using split_append [OF btoa_no_dot, of h "btoa p @ ''.'' @ btoa g"]
    split_append [OF btoa_no_dot, of p "btoa g"] split_no_sep [OF btoa_no_dot, of g]
  by simp

lemma decodeToken_token:
  assumes "JSON_parse p = Inr v"
  shows "decodeToken (JStr (btoa h @ ''.'' @ btoa p @ ''.'' @ btoa g)) = v"
proof -
  have "btoa h @ ''.'' @ btoa p @ ''.'' @ btoa g \<noteq> []" by simp
  then show ?thesis
    using assms split_token [of h p g]
    by (simp add: decodeToken_def decodeToken_try_def Let_def atob_btoa del: split.simps)
qed

lemma decodeToken_generateToken:
  assumes "wf_json (JObj payload)"
  shows "decodeToken (JStr (generateToken now payload expiry)) = token_payload now payload expiry"
proof -
  have w: "wf_json (token_payload now payload expiry)"
    unfolding token_payload_def by (intro wf_update assms) simp_all
  show ?thesis
    using decodeToken_token [OF JSON_roundtrip [OF w]]
    by (simp add: generateToken_def Let_def token_payload_def del: JSON_stringify.simps)
qed

lemma verifyToken_generateToken:
  assumes "wf_json (JObj payload)"
    and "now' \<le> now + (case expiry of None \<Rightarrow> TIMEOUT | Some e \<Rightarrow> if e = 0 then TIMEOUT else e)"
  shows "verifyToken now' (JStr (generateToken now payload expiry))"
  using assms(2)
  by (simp add: verifyToken_def decodeToken_generateToken [OF assms(1)] token_payload_def
      truthy_opt_def ToNumber_opt_def update_conv')

lemma adminToken_1000:
  "adminToken 1000 = ''eyJhbGciOiJIUzI1NiIsInR5cCI6IkpXVCJ9.eyJ1c2VySWQiOiJhZG1pbi0wMDEiLCJyb2xlIjoiYWRtaW4iLCJpYXQiOjEwMDAsImV4cCI6MTgwMTAwMH0=.bW9jay1zaWduYXR1cmUtMTAwMA==''"
  by (simp add: adminToken_def eval_auth eval_b64 eval_json)

section \<open>RegExp.test decides membership in the pattern's language\<close>

lemma cat_iff: "w \<in> cat A B \<longleftrightarrow> (\<exists>u v. w = u @ v \<and> u \<in> A \<and> v \<in> B)"
  by (auto simp: cat_def)

lemma nil_in_cat: "[] \<in> cat A B \<longleftrightarrow> [] \<in> A \<and> [] \<in> B"
  by (auto simp: cat_def)

lemma nil_in_pow: "[] \<in> pow A n \<longleftrightarrow> n = 0 \<or> [] \<in> A"
  by (induction n) (auto simp: nil_in_cat)

lemma nullable_lang: "nullable r \<longleftrightarrow> [] \<in> lang r"
proof (induction r)
  case (Star r)
  have "[] \<in> pow (lang r) 0" by simp
  then show ?case by (simp del: pow.simps) blast
next
  case (Plus r)
  then show ?case by (auto simp: nil_in_cat nil_in_pow)
next
  case (Rep lo hi r)
  then show ?case by (auto simp: nil_in_pow)
qed (auto simp: nil_in_cat)

lemma tails_cat:
  "tails c (cat A B) = cat (tails c A) B \<union> (if [] \<in> A then tails c B else {})"
proof -
  have "c # w \<in> cat A B \<longleftrightarrow> w \<in> cat (tails c A) B \<or> ([] \<in> A \<and> c # w \<in> B)" for w
  proof
    assume "c # w \<in> cat A B"
    then obtain u v where uv: "c # w = u @ v" "u \<in> A" "v \<in> B" by (auto simp: cat_iff)
    show "w \<in> cat (tails c A) B \<or> ([] \<in> A \<and> c # w \<in> B)"
    proof (cases u)
      case Nil
      with uv show ?thesis by simp
    next
      case (Cons d u')
      with uv have "w = u' @ v" "c # u' \<in> A" by simp_all
      with uv(3) show ?thesis by (auto simp: cat_iff tails_def)
    qed
  next
    assume "w \<in> cat (tails c A) B \<or> ([] \<in> A \<and> c # w \<in> B)"
    then show "c # w \<in> cat A B"
    proof
      assume "w \<in> cat (tails c A) B"
      then obtain u v where "w = u @ v" "c # u \<in> A" "v \<in> B" by (auto simp: cat_iff tails_def)
      then have "c # w = (c # u) @ v" by simp
      with \<open>c # u \<in> A\<close> \<open>v \<in> B\<close> show ?thesis unfolding cat_iff by blast
    next
      assume "[] \<in> A \<and> c # w \<in> B"
      then have "c # w = [] @ (c # w)" "[] \<in> A" "c # w \<in> B" by simp_all
      then show ?thesis unfolding cat_iff by blast
    qed
  qed
  then show ?thesis by (auto simp: tails_def)
qed

lemma pow_pad: "[] \<in> A \<Longrightarrow> pow A n \<subseteq> pow A (Suc n)"
proof
  fix w assume "[] \<in> A" "w \<in> pow A n"
  then have "w = [] @ w" "[] \<in> A" "w \<in> pow A n" by simp_all
  then show "w \<in> pow A (Suc n)" unfolding pow.simps cat_iff by blast
qed

lemma cat_nil: "cat A {[]} = A"
  by (auto simp: cat_def)

lemma tails_pow_Suc: "tails c (pow A (Suc n)) = cat (tails c A) (pow A n)"
proof (induction n)
  case 0
  show ?case by (simp add: cat_nil)
next
  case (Suc n)
  have "tails c (pow A (Suc (Suc n)))
          = cat (tails c A) (pow A (Suc n)) \<union> (if [] \<in> A then tails c (pow A (Suc n)) else {})"
    by (simp add: tails_cat del: pow.simps(2)) (simp add: tails_cat)
  moreover have "cat (tails c A) (pow A n) \<subseteq> cat (tails c A) (pow A (Suc n))" if "[] \<in> A"
  proof
    fix w assume "w \<in> cat (tails c A) (pow A n)"
    then obtain u v where "w = u @ v" "u \<in> tails c A" "v \<in> pow A n"
      unfolding cat_iff by blast
    moreover have "v \<in> pow A (Suc n)" using pow_pad [OF that, of n] \<open>v \<in> pow A n\<close> by blast
    ultimately show "w \<in> cat (tails c A) (pow A (Suc n))" unfolding cat_iff by blast
  qed
  ultimately show ?case using Suc by auto
qed

lemma tails_pow_0: "tails c (pow A 0) = {}"
  by (simp add: tails_def)

lemma tails_Union: "tails c (\<Union>n \<in> N. F n) = (\<Union>n \<in> N. tails c (F n))"
  by (auto simp: tails_def)

lemma cat_Union: "cat A (\<Union>n \<in> N. F n) = (\<Union>n \<in> N. cat A (F n))"
  by (auto simp: cat_def)

lemma tails_star: "tails c (\<Union>n. pow A n) = cat (tails c A) (\<Union>n. pow A n)"
proof -
  have "tails c (\<Union>n. pow A n) = (\<Union>n. tails c (pow A n))"
    by (rule tails_Union)
  also have "\<dots> = (\<Union>n. tails c (pow A (Suc n)))"
  proof
    show "(\<Union>n. tails c (pow A n)) \<subseteq> (\<Union>n. tails c (pow A (Suc n)))"
    proof
      fix w assume "w \<in> (\<Union>n. tails c (pow A n))"
      then obtain n where n: "w \<in> tails c (pow A n)" by blast
      then obtain m where "n = Suc m" by (cases n) (auto simp: tails_def)
      with n show "w \<in> (\<Union>n. tails c (pow A (Suc n)))" by blast
    qed
    show "(\<Union>n. tails c (pow A (Suc n))) \<subseteq> (\<Union>n. tails c (pow A n))" by blast
  qed
  also have "\<dots> = (\<Union>n. cat (tails c A) (pow A n))"
    by (simp only: tails_pow_Suc)
  also have "\<dots> = cat (tails c A) (\<Union>n. pow A n)"
    by (simp add: cat_Union)
  finally show ?thesis .
qed

lemma tails_plus: "tails c (\<Union>n. pow A (Suc n)) = cat (tails c A) (\<Union>n. pow A n)"
proof -
  have "tails c (\<Union>n. pow A (Suc n)) = (\<Union>n. tails c (pow A (Suc n)))"
    by (rule tails_Union)
  also have "\<dots> = (\<Union>n. cat (tails c A) (pow A n))"
    by (simp only: tails_pow_Suc)
  also have "\<dots> = cat (tails c A) (\<Union>n. pow A n)"
    by (simp add: cat_Union)
  finally show ?thesis .
qed

lemma tails_rep:
  assumes "0 < hi" and "lo \<le> hi"
  shows "tails c (\<Union>n \<in> {lo..hi}. pow A n) = cat (tails c A) (\<Union>n \<in> {lo - 1..hi - 1}. pow A n)"
proof
  show "tails c (\<Union>n \<in> {lo..hi}. pow A n) \<subseteq> cat (tails c A) (\<Union>n \<in> {lo - 1..hi - 1}. pow A n)"
  proof
    fix w assume "w \<in> tails c (\<Union>n \<in> {lo..hi}. pow A n)"
    then obtain n where n: "lo \<le> n" "n \<le> hi" "w \<in> tails c (pow A n)"
      by (auto simp: tails_def)
    then obtain m where m: "n = Suc m" by (cases n) (auto simp: tails_def)
    with n have "w \<in> cat (tails c A) (pow A m)" by (simp add: tails_pow_Suc del: pow.simps)
    moreover have "m \<in> {lo - 1..hi - 1}" using n m by auto
    ultimately show "w \<in> cat (tails c A) (\<Union>n \<in> {lo - 1..hi - 1}. pow A n)"
      unfolding cat_Union by blast
  qed
  show "cat (tails c A) (\<Union>n \<in> {lo - 1..hi - 1}. pow A n) \<subseteq> tails c (\<Union>n \<in> {lo..hi}. pow A n)"
  proof
    fix w assume "w \<in> cat (tails c A) (\<Union>n \<in> {lo - 1..hi - 1}. pow A n)"
    then obtain m where m: "lo - 1 \<le> m" "m \<le> hi - 1" "w \<in> cat (tails c A) (pow A m)"
      unfolding cat_Union by auto
    then have "w \<in> tails c (pow A (Suc m))" by (simp add: tails_pow_Suc del: pow.simps)
    moreover have "Suc m \<in> {lo..hi}" using m assms by auto
    ultimately show "w \<in> tails c (\<Union>n \<in> {lo..hi}. pow A n)"
      unfolding tails_Union by blast
  qed
qed

lemma lang_deriv: "lang (deriv c r) = tails c (lang r)"
proof (induction r arbitrary: c)
  case Never
  show ?case by (simp add: tails_def)
next
  case Empty
  show ?case by (simp add: tails_def)
next
  case (Chars cs)
  show ?case by (auto simp: tails_def)
next
  case (Seq r s)
  then show ?case by (simp add: tails_cat nullable_lang)
next
  case (Alt r s)
  then show ?case by (auto simp: tails_def)
next
  case (Opt r)
  then show ?case by (auto simp: tails_def)
next
  case (Star r)
  then show ?case by (simp add: tails_star del: pow.simps)
next
  case (Plus r)
  then show ?case by (simp add: tails_plus del: pow.simps)
next
  case (Rep lo hi r)
  show ?case
  proof (cases "hi = 0 \<or> hi < lo")
    case True
    then show ?thesis by (auto simp: tails_def)
  next
    case False
    then have "0 < hi" "lo \<le> hi" by auto
    then show ?thesis using Rep False by (simp add: tails_rep del: pow.simps)
  qed
qed

lemma regex_test_lang: "regex_test r s \<longleftrightarrow> s \<in> lang r"
proof (induction s arbitrary: r)
  case Nil
  show ?case by (simp add: regex_test_def nullable_lang)
next
  case (Cons c s)
  have "regex_test r (c # s) = regex_test (deriv c r) s"
    by (simp add: regex_test_def)
  then show ?case using Cons [of "deriv c r"] by (simp add: lang_deriv tails_def)
qed

section \<open>Lemmas on the loops of validateForm\<close>





lemma map_of_update_fresh:
  "map_of (AList.update k v al) k' = (if k' = k then Some v else map_of al k')"
  by (simp add: update_conv')


section \<open>Properties of StorageUtil\<close>

text \<open>
  C10. \<open>StorageUtil.get\<close> never throws: for an absent key it returns the default value; for
  a stored text that parses as JSON it returns the parsed value; for a stored text that
  does not parse, the \<open>SyntaxError\<close> of its \<open>try\<close> block is caught and it returns the
  default value (\<open>null\<close> when none is given).
\<close>

theorem StorageUtil_get_never_throws:
  "(getItem ls key = None \<longrightarrow> StorageUtil_get ls key d = d) \<and>
   (\<forall>item v. getItem ls key = Some item \<and> JSON_parse item = Inr v
      \<longrightarrow> get_try ls key d = Inr v \<and> StorageUtil_get ls key d = v) \<and>
   (\<forall>item e. getItem ls key = Some item \<and> JSON_parse item = Inl e
      \<longrightarrow> get_try ls key d = Inl e \<and> StorageUtil_get ls key d = d)"
  by (simp add: StorageUtil_get_def get_try_def)

lemma parse_demo_a: "JSON_parse ''[1, 2]'' = Inr (JArr [JNum 1, JNum 2])"
  by code_simp

lemma parse_demo_b: "JSON_parse ''{oops'' = Inl SyntaxError"
  by code_simp

theorem StorageUtil_get_never_throws_witness:
  "StorageUtil_get \<lparr>items = [(''a'', ''[1, 2]''), (''b'', ''{oops'')], quota = 100\<rparr> ''c'' JNull = JNull \<and>
   StorageUtil_get \<lparr>items = [(''a'', ''[1, 2]''), (''b'', ''{oops'')], quota = 100\<rparr> ''a'' JNull
     = JArr [JNum 1, JNum 2] \<and>
   StorageUtil_get \<lparr>items = [(''a'', ''[1, 2]''), (''b'', ''{oops'')], quota = 100\<rparr> ''b'' (JNum 7)
     = JNum 7"
  using
    StorageUtil_get_never_throws
      [of "\<lparr>items = [(''a'', ''[1, 2]''), (''b'', ''{oops'')], quota = 100\<rparr>" "''c''" JNull]
    StorageUtil_get_never_throws
      [of "\<lparr>items = [(''a'', ''[1, 2]''), (''b'', ''{oops'')], quota = 100\<rparr>" "''a''" JNull]
    StorageUtil_get_never_throws
      [of "\<lparr>items = [(''a'', ''[1, 2]''), (''b'', ''{oops'')], quota = 100\<rparr>" "''b''" "JNum 7"]
    parse_demo_a parse_demo_b
  by (simp add: getItem_def)

text \<open>
  C7, as the code has it. When the text stored under a key parses as JSON to a value that
  is not an array (an object, a number, a string, a boolean or \<open>null\<close>), \<open>StorageUtil.append\<close>
  returns false and leaves the store, and so the value under the key, as it was, whatever
  value is appended.
\<close>

theorem append_non_array:
  assumes "getItem ls key = Some item" and "JSON_parse item = Inr x" and "\<not> is_array x"
  shows "StorageUtil_append now ls key v = (False, ls)"
proof -
  have "StorageUtil_get ls key (JArr []) = x"
    using assms by (simp add: StorageUtil_get_def get_try_def)
  with assms(3) show ?thesis
    by (cases x) (simp_all add: StorageUtil_append_def)
qed

lemma parse_demo_obj: "JSON_parse ''{}'' = Inr (JObj [])"
  by code_simp

theorem append_non_array_witness:
  "StorageUtil_append 0 \<lparr>items = [(''k'', ''{}'')], quota = 100\<rparr> ''k'' (JNum 1)
     = (False, \<lparr>items = [(''k'', ''{}'')], quota = 100\<rparr>)"
  using
    append_non_array
      [of "\<lparr>items = [(''k'', ''{}'')], quota = 100\<rparr>" "''k''" "''{}''" "JObj []" 0 "JNum 1"]
    parse_demo_obj
  by (simp add: getItem_def)

text \<open>
  C7 as stated fails on a stored text that is not JSON, such as the \<open>enabled\<close> that the
  dark-mode toggle writes under \<open>darkMode\<close> with \<open>localStorage.setItem\<close>: the stored value is
  no array, \<open>get\<close> catches the \<open>SyntaxError\<close> and returns the default \<open>[]\<close>, and \<open>append\<close>
  returns true and overwrites the text with \<open>[1]\<close>.
\<close>

theorem append_non_json_counterexample:
  "JSON_parse ''enabled'' = Inl SyntaxError \<and>
   StorageUtil_append 0 \<lparr>items = [(''darkMode'', ''enabled'')], quota = 100\<rparr> ''darkMode'' (JNum 1)
     = (True, \<lparr>items = [(''darkMode'', ''[1]'')], quota = 100\<rparr>)"
  by (simp add: StorageUtil_append_def eval_storage eval_json)




section \<open>Properties of AuthUtil\<close>

text \<open>
  C1, as the code has it. \<open>authenticateAdmin('admin', 'admin12345')\<close> writes the token and
  the user record with \<open>StorageUtil.set\<close>. When both writes return true, immediately
  afterward \<open>isAuthenticated()\<close> returns true and \<open>getCurrentUser()\<close> returns the admin user,
  whose \<open>role\<close> is \<open>'admin'\<close>. The instant \<open>now'\<close> of the two calls is any instant that is
  not later than the expiry \<open>now + TIMEOUT\<close> of the token.
\<close>

theorem authenticateAdmin_authenticated:
  assumes "wf_store (storage b)"
    and "fst (StorageUtil_set now (storage b) AUTH_TOKEN (JStr (adminToken now)))"
    and "fst (StorageUtil_set now (storage (StorageUtil_set' now AUTH_TOKEN (JStr (adminToken now)) b))
               USER_DATA adminUser)"
    and "now' \<le> now + TIMEOUT"
  shows "isAuthenticated now' (snd (authenticateAdmin now b ''admin'' ''admin12345'')) = JBool True \<and>
         getCurrentUser now' (snd (authenticateAdmin now b ''admin'' ''admin12345'')) = adminUser \<and>
         get_prop adminUser ''role'' = Some (JStr ''admin'')"
proof -
  define tok where "tok = JStr (adminToken now)"
  define T where "T = now - 30 * 24 * 60 * 60 * 1000"
  define l1 where "l1 = snd (StorageUtil_set now (storage b) AUTH_TOKEN tok)"
  define l2 where "l2 = snd (StorageUtil_set now l1 USER_DATA adminUser)"
  define session where "session = JObj [(''startTime'', JNum now), (''lastActivity'', JNum now),
                         (''warningShown'', JBool False)]"
  define l3 where "l3 = snd (StorageUtil_set now l2 ADMIN_SESSION session)"
  have st: "storage (snd (authenticateAdmin now b ''admin'' ''admin12345'')) = l3"
    by (simp add: authenticateAdmin_unfold initSession_def startSessionChecker_def
        StorageUtil_set'_def Let_def l1_def l2_def l3_def tok_def session_def)
  have wu: "wf_json adminUser" by (simp add: adminUser_def is_index_def is_digit_def)
  have nu: "\<not> old_item T (JSON_stringify adminUser)"
    by (rule not_old_without_timestamp [OF wu]) (simp add: adminUser_def)
  have nt: "\<not> old_item T (JSON_stringify tok)"
    by (rule not_old_without_timestamp) (simp_all add: tok_def)
  have w1: "wf_store l1" unfolding l1_def by (rule wf_store_set [OF assms(1)])
  have w2: "wf_store l2" unfolding l2_def by (rule wf_store_set [OF w1])
  have t1: "getItem l1 AUTH_TOKEN = Some (JSON_stringify tok)"
    using assms(2) StorageUtil_set_True [of now "storage b" AUTH_TOKEN tok l1]
    by (cases "StorageUtil_set now (storage b) AUTH_TOKEN tok") (simp add: l1_def tok_def)
  have u2: "getItem l2 USER_DATA = Some (JSON_stringify adminUser)"
    using assms(3) StorageUtil_set_True [of now l1 USER_DATA adminUser l2]
    by (cases "StorageUtil_set now l1 USER_DATA adminUser")
      (simp add: l2_def l1_def tok_def StorageUtil_set'_def)
  have t2: "getItem l2 AUTH_TOKEN = Some (JSON_stringify tok)"
    unfolding l2_def T_def
    by (rule getItem_set_other [OF w1 t1 _ nt [unfolded T_def]]) (simp add: AUTH_TOKEN_def USER_DATA_def)
  have t3: "getItem l3 AUTH_TOKEN = Some (JSON_stringify tok)"
    unfolding l3_def
    by (rule getItem_set_other [OF w2 t2 _ nt [unfolded T_def]]) (simp add: AUTH_TOKEN_def ADMIN_SESSION_def)
  have u3: "getItem l3 USER_DATA = Some (JSON_stringify adminUser)"
    unfolding l3_def
    by (rule getItem_set_other [OF w2 u2 _ nu [unfolded T_def]]) (simp add: USER_DATA_def ADMIN_SESSION_def)
  have gt: "StorageUtil_get l3 AUTH_TOKEN JNull = tok"
    by (rule get_stored [OF _ t3]) (simp add: tok_def)
  have gu: "StorageUtil_get l3 USER_DATA JNull = adminUser"
    by (rule get_stored [OF wu u3])
  have v: "verifyToken now' tok"
    unfolding tok_def adminToken_def
    by (rule verifyToken_generateToken) (use assms(4) in simp_all)
  have tr: "truthy tok"
    by (simp add: tok_def adminToken_def generateToken_nonempty)
  have "get_prop adminUser ''role'' = Some (JStr ''admin'')"
    by (simp add: adminUser_def)
  then show ?thesis
    using gt gu v tr
    by (simp add: isAuthenticated_def getCurrentUser_def st Let_def)
qed

theorem authenticateAdmin_authenticated_witness:
  "isAuthenticated 1001 (snd (authenticateAdmin 1000 (browser0 5000) ''admin'' ''admin12345'')) = JBool True \<and>
   getCurrentUser 1001 (snd (authenticateAdmin 1000 (browser0 5000) ''admin'' ''admin12345'')) = adminUser \<and>
   get_prop adminUser ''role'' = Some (JStr ''admin'')"
proof -
  have 1: "wf_store (storage (browser0 5000))"
    by (simp add: browser0_def wf_store_def)
  have 2: "fst (StorageUtil_set 1000 (storage (browser0 5000)) AUTH_TOKEN (JStr (adminToken 1000)))"
    by (simp add: browser0_def adminToken_1000 AUTH_TOKEN_def eval_storage eval_json)
  have 3: "fst (StorageUtil_set 1000
      (storage (StorageUtil_set' 1000 AUTH_TOKEN (JStr (adminToken 1000)) (browser0 5000)))
      USER_DATA adminUser)"
    by (simp add: browser0_def adminToken_1000 adminUser_def StorageUtil_set'_def AUTH_TOKEN_def
        USER_DATA_def eval_storage eval_json)
  have 4: "(1001::int) \<le> 1000 + TIMEOUT" by (simp add: TIMEOUT_def)
  show ?thesis by (rule authenticateAdmin_authenticated [OF 1 2 3 4])
qed

text \<open>
  C1 as stated fails on a full store: the login reports success, nothing is stored, and
  \<open>isAuthenticated()\<close> returns \<open>null\<close>.
\<close>

theorem authenticateAdmin_full_store_counterexample:
  "res_success (fst (authenticateAdmin 1000 (browser0 0) ''admin'' ''admin12345'')) = True \<and>
   isAuthenticated 1000 (snd (authenticateAdmin 1000 (browser0 0) ''admin'' ''admin12345'')) = JNull \<and>
   getCurrentUser 1000 (snd (authenticateAdmin 1000 (browser0 0) ''admin'' ''admin12345'')) = JNull"
  by (simp add: browser0_def authenticateAdmin_unfold adminToken_1000 adminUser_def
      StorageUtil_set'_def initSession_def startSessionChecker_def isAuthenticated_def getCurrentUser_def
      AUTH_TOKEN_def USER_DATA_def ADMIN_SESSION_def eval_storage eval_json)

text \<open>
  C3 fails at an expiry of 0: \<open>verifyToken\<close> tests \<open>payload.exp && payload.exp < Date.now()\<close>,
  and the timestamp 0 is falsy, so the token whose payload is \<open>{"exp":0}\<close> is accepted at
  the instant 1000 although its expiry is in the past.
\<close>

theorem verifyToken_exp_zero:
  "decodeToken (JStr ''h.eyJleHAiOjB9.s'') = JObj [(''exp'', JNum 0)] \<and>
   verifyToken 1000 (JStr ''h.eyJleHAiOjB9.s'') = True"
  by (simp add: eval_auth eval_b64 eval_storage eval_json)






section \<open>Properties of ValidationUtil\<close>





text \<open>
  C5, as the code has it. \<open>validateEmail\<close> trims the string before it tests the pattern: it
  returns true exactly for the non-empty strings whose trimmed form is in the language of
  the email pattern, so it returns false for every string whose trimmed form does not match.
  It returns false for \<open>foo@\<close>, \<open>@bar.com\<close> and the empty string, and true for
  \<open>user@example.com\<close>.
\<close>

theorem validateEmail_pattern:
  "validateEmail (Some (JStr s)) = (s \<noteq> [] \<and> trim s \<in> lang emailRegex) \<and>
   validateEmail (Some (JStr ''foo@'')) = False \<and>
   validateEmail (Some (JStr ''@bar.com'')) = False \<and>
   validateEmail (Some (JStr '''')) = False \<and>
   validateEmail (Some (JStr ''user@example.com'')) = True"
proof -
  have "validateEmail (Some (JStr s)) = (s \<noteq> [] \<and> trim s \<in> lang emailRegex)"
    by (simp add: validateEmail_def regex_test_lang)
  moreover have "validateEmail (Some (JStr ''foo@'')) = False"
    "validateEmail (Some (JStr ''@bar.com'')) = False"
    "validateEmail (Some (JStr '''')) = False"
    "validateEmail (Some (JStr ''user@example.com'')) = True"
    by (simp_all add: eval_regex)
  ultimately show ?thesis by simp
qed

theorem validateEmail_pattern_witness:
  "trim ''user@example.com'' \<in> lang emailRegex \<and> trim ''foo@'' \<notin> lang emailRegex"
  using validateEmail_pattern [of "''user@example.com''"] validateEmail_pattern [of "''foo@''"]
  by simp

text \<open>
  C5 as stated fails on a string with white space around an address: \<open>" a@b"\<close> does not
  match the pattern, and \<open>validateEmail\<close> returns true for it.
\<close>

theorem validateEmail_untrimmed_counterexample:
  "'' a@b'' \<notin> lang emailRegex \<and> validateEmail (Some (JStr '' a@b'')) = True"
proof -
  have "\<not> regex_test emailRegex '' a@b''" by (simp add: eval_regex)
  moreover have "validateEmail (Some (JStr '' a@b''))" by (simp add: eval_regex)
  ultimately show ?thesis by (simp add: regex_test_lang)
qed

section \<open>The two login paths\<close>

text \<open>
  C8 as stated fails: the pair hardcoded in \<open>authenticateAdmin\<close> is the pair of
  \<open>CONFIG.ADMIN\<close>, \<open>admin\<close> and \<open>admin12345\<close>; each path accepts the other's pair.
\<close>

theorem admin_pairs_equal_counterexample:
  "CONFIG_ADMIN_USERNAME = ''admin'' \<and> CONFIG_ADMIN_PASSWORD = ''admin12345'' \<and>
   res_success (fst (authenticateAdmin 1000 (browser0 5000) CONFIG_ADMIN_USERNAME CONFIG_ADMIN_PASSWORD)) \<and>
   local_success (loginLocalStorage 1000 ''2026-01-01T00:00:00.000Z'' (browser0 5000)
                    ''admin'' ''admin12345'' False)"
  by (simp add: CONFIG_ADMIN_USERNAME_def CONFIG_ADMIN_PASSWORD_def authenticateAdmin_def
      loginLocalStorage_def local_success_def Let_def)

text \<open>
  C8, as the code has it. \<open>authenticateAdmin\<close> accepts exactly the pair of \<open>CONFIG.ADMIN\<close>,
  and \<open>loginLocalStorage\<close> accepts that pair as admin too. For every other pair
  \<open>authenticateAdmin\<close> refuses, and \<open>loginLocalStorage\<close> succeeds exactly when the stored user
  list is an array in which \<open>find\<close> meets an active user with that username or email and
  that password: the local path accepts the stored users in addition.
\<close>

theorem login_paths_same_admin_pair:
  "(res_success (fst (authenticateAdmin now b username password))
      \<longleftrightarrow> username = CONFIG_ADMIN_USERNAME \<and> password = CONFIG_ADMIN_PASSWORD) \<and>
   (username = CONFIG_ADMIN_USERNAME \<and> password = CONFIG_ADMIN_PASSWORD \<longrightarrow>
      local_success (loginLocalStorage now isoNow b username password rememberMe) \<and>
      local_role (loginLocalStorage now isoNow b username password rememberMe) = Some (JStr ''admin'')) \<and>
   (\<not> (username = CONFIG_ADMIN_USERNAME \<and> password = CONFIG_ADMIN_PASSWORD) \<longrightarrow>
      (local_success (loginLocalStorage now isoNow b username password rememberMe)
         \<longleftrightarrow> (\<exists>users i u. StorageUtil_get (storage b) USERS (JArr []) = JArr users
                \<and> find_user 0 username password users = Inr (Some (i, u)))))"
proof (intro conjI impI)
  show "res_success (fst (authenticateAdmin now b username password))
      \<longleftrightarrow> username = CONFIG_ADMIN_USERNAME \<and> password = CONFIG_ADMIN_PASSWORD"
    by (simp add: authenticateAdmin_def Let_def CONFIG_ADMIN_USERNAME_def CONFIG_ADMIN_PASSWORD_def)
next
  assume a: "username = CONFIG_ADMIN_USERNAME \<and> password = CONFIG_ADMIN_PASSWORD"
  then show "local_success (loginLocalStorage now isoNow b username password rememberMe)"
    by (simp add: loginLocalStorage_def Let_def local_success_def)
  from a show "local_role (loginLocalStorage now isoNow b username password rememberMe) = Some (JStr ''admin'')"
    by (simp add: loginLocalStorage_def Let_def local_role_def)
next
  assume "\<not> (username = CONFIG_ADMIN_USERNAME \<and> password = CONFIG_ADMIN_PASSWORD)"
  then have n: "(username = CONFIG_ADMIN_USERNAME \<and> password = CONFIG_ADMIN_PASSWORD) = False"
    by simp
  show "local_success (loginLocalStorage now isoNow b username password rememberMe)
         \<longleftrightarrow> (\<exists>users i u. StorageUtil_get (storage b) USERS (JArr []) = JArr users
                \<and> find_user 0 username password users = Inr (Some (i, u)))"
  proof (cases "StorageUtil_get (storage b) USERS (JArr [])")
    case (JArr users)
    show ?thesis
    proof (cases "find_user 0 username password users")
      case (Inl e)
      with JArr show ?thesis by (simp add: loginLocalStorage_def local_success_def n)
    next
      case (Inr found)
      with JArr show ?thesis
        by (cases found) (auto simp: loginLocalStorage_def local_success_def Let_def n)
    qed
  qed (simp_all add: loginLocalStorage_def local_success_def n)
qed

lemma get_demo_users: "StorageUtil_get (storage browser_demo) USERS (JArr []) = demo_users"
  by (rule get_stored) (simp_all add: demo_users_def browser_demo_def browser0_def getItem_def is_index_def is_digit_def)

theorem login_paths_same_admin_pair_witness:
  "res_success (fst (authenticateAdmin 1000 browser_demo ''admin'' ''admin12345'')) \<and>
   local_success (loginLocalStorage 1000 ''2026-01-01T00:00:00.000Z'' browser_demo ''admin'' ''admin12345'' False) \<and>
   \<not> res_success (fst (authenticateAdmin 1000 browser_demo ''admin@dbconstruction.com'' ''admin12345'')) \<and>
   local_success (loginLocalStorage 1000 ''2026-01-01T00:00:00.000Z'' browser_demo
                    ''admin@dbconstruction.com'' ''admin12345'' False)"
proof -
  have f: "\<exists>users i u. StorageUtil_get (storage browser_demo) USERS (JArr []) = JArr users
      \<and> find_user 0 ''admin@dbconstruction.com'' ''admin12345'' users = Inr (Some (i, u))"
    unfolding get_demo_users by (simp add: demo_users_def truthy_opt_def)
  show ?thesis
    using login_paths_same_admin_pair [of 1000 browser_demo "''admin''" "''admin12345''"
        "''2026-01-01T00:00:00.000Z''" False]
      login_paths_same_admin_pair [of 1000 browser_demo "''admin@dbconstruction.com''" "''admin12345''"
        "''2026-01-01T00:00:00.000Z''" False] f
    by (simp add: CONFIG_ADMIN_USERNAME_def CONFIG_ADMIN_PASSWORD_def)
qed

section \<open>The session checker\<close>

lemma storage_logout:
  "storage (snd (logout b)) =
     removeItem (removeItem (removeItem (removeItem (storage b) AUTH_TOKEN) USER_DATA) ADMIN_SESSION)
       REMEMBER_ME"
  by (simp add: logout_def clearSession_def StorageUtil_remove'_def StorageUtil_remove_def)

lemma getItem_logout:
  assumes "key \<in> {AUTH_TOKEN, USER_DATA, ADMIN_SESSION, REMEMBER_ME}"
  shows "getItem (storage (snd (logout b))) key = None"
  using assms by (auto simp: storage_logout getItem_removeItem)

lemma isAuthenticated_no_token:
  "getItem (storage b) AUTH_TOKEN = None \<Longrightarrow> isAuthenticated now b = JNull"
  by (simp add: isAuthenticated_def StorageUtil_get_def get_try_def)

lemma sessionCheck_logs_out:
  assumes "isAuthenticated now b = JBool True"
    and "get_prop (StorageUtil_get (storage b) ADMIN_SESSION JNull) ''lastActivity'' = Some (JNum lastActivity)"
    and "now - lastActivity \<ge> TIMEOUT"
  shows "\<exists>b1. sessionCheck now ok b = expired_page ((snd (logout b1))\<lparr>sessionCheckInterval := False\<rparr>)"
proof -
  define session where "session = StorageUtil_get (storage b) ADMIN_SESSION JNull"
  have s: "truthy session"
    using assms(2) unfolding session_def [symmetric] by (cases session) simp_all
  have i: "js_ge (js_sub (NumZ now) (ToNumber_opt (get_prop session ''lastActivity''))) (NumZ TIMEOUT)"
    using assms(2,3) unfolding session_def [symmetric] by (simp add: ToNumber_opt_def)
  show ?thesis
    using assms(1) s i unfolding sessionCheck_def session_def [symmetric] Let_def expired_page_def
    by (auto simp: Let_def)
qed

text \<open>
  C6. When a run of the session checker finds the user authenticated (\<open>isAuthenticated()\<close>
  returns true) and the stored session has a numeric \<open>lastActivity\<close> at least \<open>TIMEOUT\<close>
  (30 minutes) before the current time, the run removes the token, the user data, the
  session record and the remember-me flag from the store, whatever the answer to the
  warning is. Afterwards \<open>isAuthenticated()\<close> returns \<open>null\<close> at every instant: a falsy value,
  but not the boolean \<open>false\<close>.
\<close>

theorem sessionCheck_timeout:
  assumes "isAuthenticated now b = JBool True"
    and "get_prop (StorageUtil_get (storage b) ADMIN_SESSION JNull) ''lastActivity'' = Some (JNum lastActivity)"
    and "now - lastActivity \<ge> TIMEOUT"
  shows "getItem (storage (sessionCheck now ok b)) AUTH_TOKEN = None \<and>
         getItem (storage (sessionCheck now ok b)) USER_DATA = None \<and>
         getItem (storage (sessionCheck now ok b)) ADMIN_SESSION = None \<and>
         getItem (storage (sessionCheck now ok b)) REMEMBER_ME = None \<and>
         isAuthenticated now' (sessionCheck now ok b) = JNull \<and>
         \<not> truthy (isAuthenticated now' (sessionCheck now ok b))"
proof -
  obtain b1 where b1: "sessionCheck now ok b = expired_page ((snd (logout b1))\<lparr>sessionCheckInterval := False\<rparr>)"
    using sessionCheck_logs_out [OF assms] by blast
  have st: "storage (sessionCheck now ok b) = storage (snd (logout b1))"
    unfolding b1 by (simp add: expired_page_def)
  have g: "getItem (storage (sessionCheck now ok b)) key = None"
    if "key \<in> {AUTH_TOKEN, USER_DATA, ADMIN_SESSION, REMEMBER_ME}" for key
    unfolding st by (rule getItem_logout [OF that])
  have "isAuthenticated now' (sessionCheck now ok b) = JNull"
    by (rule isAuthenticated_no_token) (simp add: g)
  then show ?thesis using g by simp
qed

lemma browser_session_items:
  "items (storage browser_session) =
     [(AUTH_TOKEN, JSON_stringify (JStr (adminToken 1000))),
      (USER_DATA, JSON_stringify adminUser),
      (ADMIN_SESSION, JSON_stringify (JObj [(''startTime'', JNum 1000), (''lastActivity'', JNum 1000),
                         (''warningShown'', JBool False)]))]"
  by (simp add: browser_session_def authenticateAdmin_unfold adminToken_1000 adminUser_def browser0_def
      initSession_def startSessionChecker_def StorageUtil_set'_def AUTH_TOKEN_def USER_DATA_def
      ADMIN_SESSION_def eval_storage eval_json)

theorem sessionCheck_timeout_witness:
  "getItem (storage (sessionCheck 1801000 False browser_session)) AUTH_TOKEN = None \<and>
   getItem (storage (sessionCheck 1801000 False browser_session)) USER_DATA = None \<and>
   getItem (storage (sessionCheck 1801000 False browser_session)) ADMIN_SESSION = None \<and>
   getItem (storage (sessionCheck 1801000 False browser_session)) REMEMBER_ME = None \<and>
   isAuthenticated 1801001 (sessionCheck 1801000 False browser_session) = JNull \<and>
   \<not> truthy (isAuthenticated 1801001 (sessionCheck 1801000 False browser_session)) \<and>
   JNull \<noteq> JBool False"
proof -
  have t: "StorageUtil_get (storage browser_session) AUTH_TOKEN JNull = JStr (adminToken 1000)"
    by (rule get_stored) (simp_all add: getItem_def browser_session_items)
  have v: "verifyToken 1801000 (JStr (adminToken 1000))"
    unfolding adminToken_def by (rule verifyToken_generateToken) (simp_all add: TIMEOUT_def is_index_def is_digit_def)
  have 1: "isAuthenticated 1801000 browser_session = JBool True"
    using t v by (simp add: isAuthenticated_def adminToken_def generateToken_nonempty)
  have "StorageUtil_get (storage browser_session) ADMIN_SESSION JNull
          = JObj [(''startTime'', JNum 1000), (''lastActivity'', JNum 1000), (''warningShown'', JBool False)]"
    by (rule get_stored)
      (simp_all add: getItem_def browser_session_items AUTH_TOKEN_def USER_DATA_def ADMIN_SESSION_def)
  then have 2: "get_prop (StorageUtil_get (storage browser_session) ADMIN_SESSION JNull) ''lastActivity''
                  = Some (JNum 1000)"
    by simp
  have 3: "(1801000::int) - 1000 \<ge> TIMEOUT" by (simp add: TIMEOUT_def)
  show ?thesis
    using sessionCheck_timeout [OF 1 2 3, of False 1801001] by simp
qed

end
